theory Spec2Isabelle
  imports Complex_Main "HOL-Library.Word" "HOL-Library.Product_Lexorder" "HOL-Library.Multiset"
begin

section \<open>The parallel executor (ParallelFor)\<close>

text \<open>
  \<^verbatim>\<open>ParallelFor(start, end, numThreads, fn)\<close> of HNSWLibWrapper.cpp. With one thread it is a
  plain \<^verbatim>\<open>for\<close> loop calling \<^verbatim>\<open>fn(id, 0)\<close>; otherwise it starts \<^verbatim>\<open>numThreads\<close> workers that
  claim ids from the shared atomic cursor \<^verbatim>\<open>current\<close>, joins them all and rethrows
  \<^verbatim>\<open>lastException\<close> if one was recorded.

  An exception is the message of a \<^verbatim>\<open>std::exception\<close>. A unit of work \<^verbatim>\<open>fn(id, threadId)\<close> acts on
  the state shared by the workers and either returns or throws; its effect on the shared state is
  taken as one atomic step (the engine behind the wrapper serialises its own accesses with locks,
  and the result buffers are written in disjoint blocks). The cursor is a \<^verbatim>\<open>size_t\<close>; it is
  modelled as a natural number, so the range is assumed to end below the wrap-around of
  \<^verbatim>\<open>fetch_add\<close>.
\<close>

type_synonym exn = string

type_synonym 's unit_fn = "nat \<Rightarrow> nat \<Rightarrow> 's \<Rightarrow> exn option \<times> 's"

text \<open>The sequential branch: \<^verbatim>\<open>for (size_t id = start; id < end; id++) fn(id, 0);\<close>. An exception
  leaves the loop at once; what earlier units did to the shared state stays.\<close>

function ParallelFor_loop :: "'s unit_fn \<Rightarrow> nat \<Rightarrow> nat \<Rightarrow> 's \<Rightarrow> exn option \<times> 's" where
  "ParallelFor_loop fn i endv s =
     (if i < endv then
        (case fn i 0 s of
           (Some e, s') \<Rightarrow> (Some e, s')
         | (None, s') \<Rightarrow> ParallelFor_loop fn (i + 1) endv s')
      else (None, s))"
  by pat_completeness auto
termination
  by (relation "measure (\<lambda>(fn, i, endv, s). endv - i)") auto

text \<open>The parallel branch. A worker is about to execute \<^verbatim>\<open>current.fetch_add(1)\<close> (\<open>Fetching\<close>),
  is inside \<^verbatim>\<open>fn(id, threadId)\<close> (\<open>Running id\<close>), or has left its \<^verbatim>\<open>while (true)\<close> loop through
  one of the two \<^verbatim>\<open>break\<close>s (\<open>Exited\<close>).\<close>

datatype wstate = Fetching | Running nat | Exited

record 's pool =
  current :: nat
  lastException :: "exn option"
  workers :: "wstate list"
  shared :: 's

text \<open>One atomic step of worker \<open>t\<close>: the \<^verbatim>\<open>fetch_add\<close> with the test \<^verbatim>\<open>id >= end\<close>, or the call
  of \<^verbatim>\<open>fn\<close> with, when it throws, the handler that records the exception under the mutex and
  stores \<^verbatim>\<open>current = end\<close>.\<close>

definition worker_step :: "'s unit_fn \<Rightarrow> nat \<Rightarrow> nat \<Rightarrow> 's pool \<Rightarrow> 's pool" where
  "worker_step fn endv t st =
     (case workers st ! t of
        Fetching \<Rightarrow>
          (let i = current st in
             st\<lparr>current := i + 1,
                workers := (workers st)[t := (if endv \<le> i then Exited else Running i)]\<rparr>)
      | Running i \<Rightarrow>
          (case fn i t (shared st) of
             (None, s') \<Rightarrow> st\<lparr>workers := (workers st)[t := Fetching], shared := s'\<rparr>
           | (Some e, s') \<Rightarrow>
               st\<lparr>current := endv, lastException := Some e,
                  workers := (workers st)[t := Exited], shared := s'\<rparr>)
      | Exited \<Rightarrow> st)"

text \<open>The scheduler is the only source of nondeterminism. A schedule is a list of choices; each
  choice selects one of the workers that have not exited. All workers have exited exactly when
  every \<^verbatim>\<open>thread.join()\<close> has returned.\<close>

definition enabled :: "'s pool \<Rightarrow> nat list" where
  "enabled st = filter (\<lambda>t. workers st ! t \<noteq> Exited) [0..<length (workers st)]"

definition pick :: "nat \<Rightarrow> 's pool \<Rightarrow> nat" where
  "pick c st = enabled st ! (c mod length (enabled st))"

definition joined :: "'s pool \<Rightarrow> bool" where
  "joined st = (enabled st = [])"

fun run :: "'s unit_fn \<Rightarrow> nat \<Rightarrow> nat list \<Rightarrow> 's pool \<Rightarrow> 's pool option" where
  "run fn endv [] st = (if joined st then Some st else None)"
| "run fn endv (c # cs) st =
     (if joined st then Some st else run fn endv cs (worker_step fn endv (pick c st) st))"

definition spawn :: "nat \<Rightarrow> nat \<Rightarrow> 's \<Rightarrow> 's pool" where
  "spawn numThreads start s =
     \<lparr>current = start, lastException = None, workers = replicate numThreads Fetching, shared = s\<rparr>"

text \<open>\<open>hw\<close> is what \<^verbatim>\<open>std::thread::hardware_concurrency()\<close> returns on the host. The result is
  the exception that leaves \<^verbatim>\<open>ParallelFor\<close> (if any) with the shared state it leaves behind;
  \<open>None\<close> when the schedule ends before all workers have been joined.\<close>

definition ParallelFor ::
  "nat \<Rightarrow> nat list \<Rightarrow> nat \<Rightarrow> nat \<Rightarrow> nat \<Rightarrow> 's unit_fn \<Rightarrow> 's \<Rightarrow> (exn option \<times> 's) option" where
  "ParallelFor hw sched start endv numThreads fn s =
     (let numThreads = (if numThreads \<le> 0 then hw else numThreads) in
      if numThreads = 1 then Some (ParallelFor_loop fn start endv s)
      else map_option (\<lambda>st. (lastException st, shared st))
             (run fn endv sched (spawn numThreads start s)))"

section \<open>Data model of the wrapper\<close>

datatype SpaceType = SpaceTypeL2 | SpaceTypeIP | SpaceTypeCosine

text \<open>\<^verbatim>\<open>labeltype\<close> is \<^verbatim>\<open>size_t\<close> and the label buffers hold \<^verbatim>\<open>uint64_t\<close>: 64-bit words, whose
  addition wraps. A \<^verbatim>\<open>float\<close> held in a buffer or returned by the engine is finite and is the
  real number it denotes; the wrapper copies and compares these, and computes with them in
  \<^verbatim>\<open>normalize_vector\<close> only, whose arithmetic is modelled as it is rounded (see below). A buffer
  passed by pointer is the function from element index to element; the caller
  answers for its size.\<close>

type_synonym labeltype = "64 word"

type_synonym 'a buffer = "nat \<Rightarrow> 'a"

definition ptr_add :: "'a buffer \<Rightarrow> nat \<Rightarrow> 'a buffer" where
  "ptr_add p off = (\<lambda>i. p (off + i))"

text \<open>The \<open>n\<close> elements a callee reads from a pointer.\<close>

definition floats :: "real buffer \<Rightarrow> nat \<Rightarrow> real list" where
  "floats p n = map p [0..<n]"

text \<open>Conversions of the C++ source: \<^verbatim>\<open>(size_t)\<close> of an \<^verbatim>\<open>int\<close>, and the narrowing of a
  \<^verbatim>\<open>size_t\<close> (or \<^verbatim>\<open>unsigned\<close>) to \<^verbatim>\<open>int\<close>.\<close>

definition size_t_of_int :: "int \<Rightarrow> nat" where
  "size_t_of_int z = nat (z mod 2 ^ 64)"

definition int_of_size_t :: "nat \<Rightarrow> int" where
  "int_of_size_t n = (int n + 2 ^ 31) mod 2 ^ 32 - 2 ^ 31"

text \<open>\<^verbatim>\<open>std::priority_queue<std::pair<float, labeltype>>\<close>: the queue is the list of its
  elements; \<open>top\<close> is the greatest pair (pairs compare lexicographically), \<open>pop\<close> removes it.
  The top of an empty queue has no defined value; the loop below that empties a queue tests for
  it before it reads the top.\<close>

type_synonym result_queue = "(real \<times> labeltype) list"

fun pq_top :: "result_queue \<Rightarrow> real \<times> labeltype" where
  "pq_top (x # xs) = fold max xs x"
| "pq_top [] = undefined"

definition pq_pop :: "result_queue \<Rightarrow> result_queue" where
  "pq_pop q = remove1 (pq_top q) q"

text \<open>The public member \<^verbatim>\<open>ef_\<close> of the engine object \<^verbatim>\<open>HierarchicalNSW<float>\<close>, which the
  wrapper reads and writes, is the field \<open>ef_member\<close> (a name cannot end with an underscore);
  \<open>rep\<close> stands for the rest of the object. The engine itself (\<^verbatim>\<open>hnswlib.h\<close>) is not part of
  the wrapper: its constructors and member functions are parameters of the functions below.

  The two index structs follow. The member \<^verbatim>\<open>normalize\<close> is the field \<open>normalize_flag\<close>, and the
  fields of \<^verbatim>\<open>BFIndex\<close> carry the prefix \<open>bf_\<close>, since two records cannot share a field name.
  A pointer that may be null is an \<open>option\<close>.\<close>

record 'g HierarchicalNSW =
  ef_member :: nat
  rep :: 'g

record ('sp, 'g) HNSWIndex =
  space_type :: SpaceType
  dim :: int
  normalize_flag :: bool
  index_inited :: bool
  ep_added :: bool
  num_threads_default :: int
  cur_l :: labeltype
  appr_alg :: "'g HierarchicalNSW option"
  space :: "'sp option"
  default_ef :: nat

record ('sp, 'b) BFIndex =
  bf_space_type :: SpaceType
  bf_dim :: int
  bf_normalize_flag :: bool
  bf_num_threads_default :: int
  bf_cur_l :: labeltype
  bf_alg :: "'b option"
  bf_space :: "'sp option"

section \<open>Single-precision arithmetic\<close>

text \<open>
  \<^verbatim>\<open>normalize_vector\<close> computes with \<^verbatim>\<open>float\<close>: IEEE 754 binary32 with rounding to nearest,
  ties to even. A value of the format is a finite number, an infinity or a NaN; the two zeros
  are one value (they differ only as divisors, and \<^verbatim>\<open>normalize_vector\<close> never divides by a
  zero: lemma \<open>divisor_not_zero\<close> below). Every operation computes the exact result and
  rounds it: to the nearest multiple of the unit in the last place of its binade (24
  significant bits; multiples of \<open>2\<^sup>-\<^sup>1\<^sup>4\<^sup>9\<close> in the subnormal range), and to an infinity when
  the rounded magnitude reaches \<open>2\<^sup>1\<^sup>2\<^sup>8\<close>. Each operation rounds on its own (the product and
  the sum of \<^verbatim>\<open>norm += data[i] * data[i]\<close> are not fused), and \<^verbatim>\<open>sqrtf\<close> is correctly rounded.
\<close>

datatype float32 = is_Finite: Finite (float_val: real) | PlusInf | MinusInf | NaN

definition binade :: "real \<Rightarrow> int" where
  "binade x = (if x = 0 then - 126 else max \<lfloor>log 2 \<bar>x\<bar>\<rfloor> (- 126))"

definition ulp32 :: "real \<Rightarrow> real" where
  "ulp32 x = 2 powr of_int (binade x - 23)"

definition round_even :: "real \<Rightarrow> int" where
  "round_even q =
     (let f = \<lfloor>q\<rfloor>; r = q - of_int f
      in if r < 1 / 2 then f else if 1 / 2 < r then f + 1 else if even f then f else f + 1)"

definition nearest32 :: "real \<Rightarrow> real" where
  "nearest32 x = of_int (round_even (x / ulp32 x)) * ulp32 x"

definition round32 :: "real \<Rightarrow> float32" where
  "round32 x =
     (let y = nearest32 x
      in if 2 ^ 128 \<le> y then PlusInf else if y \<le> - (2 ^ 128) then MinusInf else Finite y)"



text \<open>The operations \<^verbatim>\<open>+\<close>, \<^verbatim>\<open>*\<close> and \<^verbatim>\<open>/\<close> on \<^verbatim>\<open>float\<close> operands and \<^verbatim>\<open>sqrtf\<close>, with the special
  values as IEEE 754 has them.\<close>

fun is_negative :: "float32 \<Rightarrow> bool" where
  "is_negative (Finite x) = (x < 0)"
| "is_negative MinusInf = True"
| "is_negative PlusInf = False"
| "is_negative NaN = False"

definition signed_inf :: "bool \<Rightarrow> float32" where
  "signed_inf neg = (if neg then MinusInf else PlusInf)"

definition fadd :: "float32 \<Rightarrow> float32 \<Rightarrow> float32" where
  "fadd a b =
     (if a = NaN \<or> b = NaN then NaN
      else if is_Finite a \<and> is_Finite b then round32 (float_val a + float_val b)
      else if is_Finite a then b
      else if is_Finite b then a
      else if a = b then a else NaN)"

definition fmul :: "float32 \<Rightarrow> float32 \<Rightarrow> float32" where
  "fmul a b =
     (if a = NaN \<or> b = NaN then NaN
      else if is_Finite a \<and> is_Finite b then round32 (float_val a * float_val b)
      else if a = Finite 0 \<or> b = Finite 0 then NaN
      else signed_inf (is_negative a \<noteq> is_negative b))"

definition fdiv :: "float32 \<Rightarrow> float32 \<Rightarrow> float32" where
  "fdiv a b =
     (if a = NaN \<or> b = NaN then NaN
      else if is_Finite a \<and> is_Finite b then
        (if b = Finite 0 then (if a = Finite 0 then NaN else signed_inf (is_negative a))
         else round32 (float_val a / float_val b))
      else if is_Finite a then Finite 0
      else if is_Finite b then signed_inf (is_negative a \<noteq> is_negative b)
      else NaN)"

definition fsqrt :: "float32 \<Rightarrow> float32" where
  "fsqrt a =
     (if a = NaN \<or> is_negative a then NaN
      else if a = PlusInf then PlusInf
      else round32 (sqrt (float_val a)))"

section \<open>normalize_vector\<close>

text \<open>\<^verbatim>\<open>normalize_vector(data, norm_array, dim)\<close>: the result is what the call leaves in
  \<^verbatim>\<open>norm_array[0..dim)\<close>. The floats of \<^verbatim>\<open>data\<close> are finite; \<^verbatim>\<open>norm\<close> is a \<^verbatim>\<open>float\<close> that can become
  an infinity; \<^verbatim>\<open>1e-30f\<close> is the literal rounded to a \<^verbatim>\<open>float\<close>. \<open>sum_of_squares\<close> is the value of
  \<^verbatim>\<open>norm\<close> after the first loop. The products written to \<^verbatim>\<open>norm_array\<close> are finite again,
  whatever finite \<^verbatim>\<open>data\<close> holds (lemma \<open>normalize32_finite\<close> below), and are read back as real
  numbers.\<close>

definition sum_of_squares :: "real buffer \<Rightarrow> nat \<Rightarrow> float32" where
  "sum_of_squares data n =
     foldl (\<lambda>norm i. fadd norm (fmul (Finite (data i)) (Finite (data i)))) (Finite 0) [0..<n]"

definition normalize32 :: "real buffer \<Rightarrow> int \<Rightarrow> float32 list" where
  "normalize32 data d =
     (let norm = sum_of_squares data (nat d);
          norm = fdiv (Finite 1) (fadd (fsqrt norm) (round32 (1 / 10 ^ 30)))
      in map (\<lambda>i. fmul (Finite (data i)) norm) [0..<nat d])"

definition normalize_vector :: "real buffer \<Rightarrow> int \<Rightarrow> real list" where
  "normalize_vector data d = map float_val (normalize32 data d)"




text \<open>\<^verbatim>\<open>std::vector<float> v(n)\<close> with an \<^verbatim>\<open>int\<close> \<open>n\<close>: a negative \<open>n\<close> converts to a size beyond
  \<^verbatim>\<open>max_size()\<close> and the constructor throws \<^verbatim>\<open>std::length_error\<close>. Memory is assumed not to run
  out otherwise.\<close>

definition vector_alloc :: "int \<Rightarrow> exn option" where
  "vector_alloc n = (if n < 0 then Some ''vector'' else None)"

section \<open>The approximate index\<close>

text \<open>The constructor \<^verbatim>\<open>HNSWIndex::HNSWIndex(space_type, dim)\<close>. \<open>L2Space\<close> and
  \<open>InnerProductSpace\<close> are the constructors of the metric spaces of the engine.\<close>

definition HNSWIndex_new ::
  "(int \<Rightarrow> exn + 'sp) \<Rightarrow> (int \<Rightarrow> exn + 'sp) \<Rightarrow> nat \<Rightarrow> SpaceType \<Rightarrow> int \<Rightarrow> exn + ('sp, 'g) HNSWIndex" where
  "HNSWIndex_new L2Space InnerProductSpace hw st d =
     (let this = \<lparr>space_type = st, dim = d, normalize_flag = False, index_inited = False,
                  ep_added = False, num_threads_default = int_of_size_t hw, cur_l = 0,
                  appr_alg = None, space = None, default_ef = 10\<rparr>
      in case st of
           SpaceTypeL2 \<Rightarrow>
             (case L2Space d of Inl e \<Rightarrow> Inl e | Inr sp \<Rightarrow> Inr (this\<lparr>space := Some sp\<rparr>))
         | SpaceTypeIP \<Rightarrow>
             (case InnerProductSpace d of Inl e \<Rightarrow> Inl e | Inr sp \<Rightarrow> Inr (this\<lparr>space := Some sp\<rparr>))
         | SpaceTypeCosine \<Rightarrow>
             (case InnerProductSpace d of Inl e \<Rightarrow> Inl e
              | Inr sp \<Rightarrow> Inr (this\<lparr>space := Some sp, normalize_flag := True\<rparr>)))"

text \<open>A null pointer is \<open>None\<close>.\<close>

definition hnswlib_index_create ::
  "(int \<Rightarrow> exn + 'sp) \<Rightarrow> (int \<Rightarrow> exn + 'sp) \<Rightarrow> nat \<Rightarrow> SpaceType \<Rightarrow> int \<Rightarrow> ('sp, 'g) HNSWIndex option" where
  "hnswlib_index_create L2Space InnerProductSpace hw st d =
     (case HNSWIndex_new L2Space InnerProductSpace hw st d of
        Inr index \<Rightarrow> Some index
      | Inl e \<Rightarrow> None)"

text \<open>\<^verbatim>\<open>hnswlib_index_init\<close>: the result is the returned flag and the index behind the pointer.
  \<open>HierarchicalNSW_new\<close> is the constructor of the engine. When it throws, the old engine object
  has already been deleted and \<^verbatim>\<open>appr_alg\<close> still points to it; the model leaves the field as
  it was.\<close>

definition hnswlib_index_init ::
  "('sp \<Rightarrow> nat \<Rightarrow> nat \<Rightarrow> nat \<Rightarrow> nat \<Rightarrow> bool \<Rightarrow> exn + 'g HierarchicalNSW) \<Rightarrow>
   ('sp, 'g) HNSWIndex option \<Rightarrow> nat \<Rightarrow> nat \<Rightarrow> nat \<Rightarrow> nat \<Rightarrow> bool \<Rightarrow>
   bool \<times> ('sp, 'g) HNSWIndex option" where
  "hnswlib_index_init HierarchicalNSW_new index max_elements M ef_construction random_seed
       allow_replace_deleted =
     (case index of
        None \<Rightarrow> (False, None)
      | Some ix \<Rightarrow>
          (case space ix of
             None \<Rightarrow> (False, index)
           | Some sp \<Rightarrow>
               (case HierarchicalNSW_new sp max_elements M ef_construction random_seed
                       allow_replace_deleted of
                  Inl e \<Rightarrow> (False, Some (ix\<lparr>cur_l := 0\<rparr>))
                | Inr alg \<Rightarrow>
                    (True, Some (ix\<lparr>cur_l := 0, index_inited := True, ep_added := False,
                                    appr_alg := Some (alg\<lparr>ef_member := default_ef ix\<rparr>)\<rparr>)))))"

definition hnswlib_index_set_ef ::
  "('sp, 'g) HNSWIndex option \<Rightarrow> nat \<Rightarrow> ('sp, 'g) HNSWIndex option" where
  "hnswlib_index_set_ef index ef =
     (case index of
        None \<Rightarrow> None
      | Some ix \<Rightarrow>
          Some (ix\<lparr>default_ef := ef,
                   appr_alg := (case appr_alg ix of
                                  None \<Rightarrow> None
                                | Some alg \<Rightarrow> Some (alg\<lparr>ef_member := ef\<rparr>))\<rparr>))"

definition hnswlib_index_get_ef :: "('sp, 'g) HNSWIndex option \<Rightarrow> nat" where
  "hnswlib_index_get_ef index =
     (case index of
        None \<Rightarrow> 0
      | Some ix \<Rightarrow> (case appr_alg ix of None \<Rightarrow> 0 | Some alg \<Rightarrow> ef_member alg))"

text \<open>The thread count of a batch: the statements at the head of the \<^verbatim>\<open>try\<close> blocks of
  \<^verbatim>\<open>hnswlib_index_add_items\<close> and \<^verbatim>\<open>hnswlib_index_search_knn\<close> (the same text in both). The
  product \<^verbatim>\<open>num_threads * 4\<close> is an \<^verbatim>\<open>int\<close>; it is taken not to overflow.\<close>

definition batch_threads :: "int \<Rightarrow> nat \<Rightarrow> int \<Rightarrow> int" where
  "batch_threads threads_default n num_threads =
     (let num_threads = (if num_threads \<le> 0 then threads_default else num_threads);
          num_threads = (if n \<le> size_t_of_int (num_threads * 4) then 1 else num_threads)
      in num_threads)"

text \<open>The work function of \<^verbatim>\<open>hnswlib_index_add_items\<close> (the two lambdas, one per value of
  \<^verbatim>\<open>index->normalize\<close>). The shared state is the engine object. The engine reads
  \<^verbatim>\<open>(size_t)index->dim\<close> floats from the pointer it is given; in the second lambda these are the
  floats \<^verbatim>\<open>normalize_vector\<close> has just written to the slot \<^verbatim>\<open>threadId * index->dim\<close> of
  \<^verbatim>\<open>norm_array\<close>, which no other worker touches.\<close>

definition add_items_fn ::
  "('g HierarchicalNSW \<Rightarrow> real list \<Rightarrow> labeltype \<Rightarrow> bool \<Rightarrow> exn option \<times> 'g HierarchicalNSW) \<Rightarrow>
   ('sp, 'g) HNSWIndex \<Rightarrow> real buffer \<Rightarrow> nat \<Rightarrow> labeltype buffer option \<Rightarrow> bool \<Rightarrow>
   'g HierarchicalNSW unit_fn" where
  "add_items_fn addPoint ix data d ids replace_deleted row threadId alg =
     (if \<not> normalize_flag ix then
        (let label = (case ids of Some p \<Rightarrow> p row | None \<Rightarrow> cur_l ix + of_nat row)
         in addPoint alg (floats (ptr_add data (row * d)) d) label replace_deleted)
      else
        (let norm_array = normalize_vector (ptr_add data (row * d)) (dim ix);
             label = (case ids of Some p \<Rightarrow> p row | None \<Rightarrow> cur_l ix + of_nat row)
         in addPoint alg norm_array label replace_deleted))"

text \<open>The block \<^verbatim>\<open>if (!index->ep_added) { ... }\<close> of \<^verbatim>\<open>hnswlib_index_add_items\<close>. \<open>Inl\<close>: an
  exception left the block, with the engine object as it is then; \<open>Inr\<close>: the values of
  \<^verbatim>\<open>start\<close> and \<^verbatim>\<open>ep_added\<close> and the engine object after the block.\<close>

definition add_first ::
  "('g HierarchicalNSW \<Rightarrow> real list \<Rightarrow> labeltype \<Rightarrow> bool \<Rightarrow> exn option \<times> 'g HierarchicalNSW) \<Rightarrow>
   ('sp, 'g) HNSWIndex \<Rightarrow> 'g HierarchicalNSW \<Rightarrow> real buffer \<Rightarrow> nat \<Rightarrow> labeltype buffer option \<Rightarrow> bool \<Rightarrow>
   (exn \<times> 'g HierarchicalNSW) + (nat \<times> bool \<times> 'g HierarchicalNSW)" where
  "add_first addPoint ix alg data d ids replace_deleted =
     (if \<not> ep_added ix then
        (let label = (case ids of Some p \<Rightarrow> p 0 | None \<Rightarrow> cur_l ix) in
         case vector_alloc (dim ix) of
           Some e \<Rightarrow> Inl (e, alg)
         | None \<Rightarrow>
             (let vector_data = (if normalize_flag ix then normalize_vector data (dim ix)
                                 else floats data d)
              in case addPoint alg vector_data label replace_deleted of
                   (Some e, alg') \<Rightarrow> Inl (e, alg')
                 | (None, alg') \<Rightarrow> Inr (1, True, alg')))
      else Inr (0, ep_added ix, alg))"

text \<open>\<^verbatim>\<open>hnswlib_index_add_items\<close>. The result is the returned flag with the index behind the
  pointer; \<open>None\<close> when the schedule ends before \<^verbatim>\<open>ParallelFor\<close> has joined its workers.
  Every exception is caught and turns into \<^verbatim>\<open>false\<close>.\<close>

definition hnswlib_index_add_items ::
  "('g HierarchicalNSW \<Rightarrow> real list \<Rightarrow> labeltype \<Rightarrow> bool \<Rightarrow> exn option \<times> 'g HierarchicalNSW) \<Rightarrow>
   nat \<Rightarrow> nat list \<Rightarrow> ('sp, 'g) HNSWIndex option \<Rightarrow> real buffer \<Rightarrow> nat \<Rightarrow> nat \<Rightarrow>
   labeltype buffer option \<Rightarrow> int \<Rightarrow> bool \<Rightarrow> (bool \<times> ('sp, 'g) HNSWIndex option) option" where
  "hnswlib_index_add_items addPoint hw sched index data rows d ids num_threads replace_deleted =
     (case index of
        None \<Rightarrow> Some (False, None)
      | Some ix \<Rightarrow>
          (case appr_alg ix of
             None \<Rightarrow> Some (False, index)
           | Some alg \<Rightarrow>
               if d \<noteq> size_t_of_int (dim ix) then Some (False, index)
               else
                 (let num_threads = batch_threads (num_threads_default ix) rows num_threads in
                  case add_first addPoint ix alg data d ids replace_deleted of
                    Inl (e, alg') \<Rightarrow> Some (False, Some (ix\<lparr>appr_alg := Some alg'\<rparr>))
                  | Inr (start, ep, alg') \<Rightarrow>
                      if normalize_flag ix \<and> vector_alloc (num_threads * dim ix) \<noteq> None
                      then Some (False, Some (ix\<lparr>ep_added := ep, appr_alg := Some alg'\<rparr>))
                      else
                        (case ParallelFor hw sched start rows (size_t_of_int num_threads)
                                (add_items_fn addPoint ix data d ids replace_deleted) alg' of
                           None \<Rightarrow> None
                         | Some (Some e, alg'') \<Rightarrow>
                             Some (False, Some (ix\<lparr>ep_added := ep, appr_alg := Some alg''\<rparr>))
                         | Some (None, alg'') \<Rightarrow>
                             Some (True, Some (ix\<lparr>ep_added := ep, appr_alg := Some alg'',
                                                 cur_l := cur_l ix + of_nat rows\<rparr>))))))"

text \<open>The loop that empties the result queue into the caller's buffers:
  \<^verbatim>\<open>for (int j = k - 1; j >= 0; j--) { top(); result_distances[i * k + j] = ...; pop(); }\<close>
  with \<open>base = i * k\<close>. Reading the top of an empty queue is undefined behaviour: \<open>None\<close>.\<close>

function drain ::
  "int \<Rightarrow> nat \<Rightarrow> result_queue \<Rightarrow> labeltype buffer \<times> real buffer \<Rightarrow>
   (labeltype buffer \<times> real buffer) option" where
  "drain j base result bufs =
     (if 0 \<le> j then
        (if result = [] then None
         else drain (j - 1) base (pq_pop result)
                ((fst bufs)(base + nat j := snd (pq_top result)),
                 (snd bufs)(base + nat j := fst (pq_top result))))
      else Some bufs)"
  by pat_completeness auto
termination
  by (relation "measure (\<lambda>(j, base, result, bufs). nat (j + 1))") auto

text \<open>\<^verbatim>\<open>k - 1\<close> on \<^verbatim>\<open>size_t\<close>.\<close>

definition size_t_pred :: "nat \<Rightarrow> nat" where
  "size_t_pred k = (k + 2 ^ 64 - 1) mod 2 ^ 64"

text \<open>The work function of \<^verbatim>\<open>hnswlib_index_search_knn\<close> (again two lambdas that differ in the
  query they pass on). The shared state is the pair of result buffers, or \<open>None\<close> once
  undefined behaviour has occurred. \<open>searchKnn\<close> is the search of the engine; it does not change
  the engine object.\<close>

definition search_knn_fn ::
  "('g HierarchicalNSW \<Rightarrow> real list \<Rightarrow> nat \<Rightarrow> exn + result_queue) \<Rightarrow>
   ('sp, 'g) HNSWIndex \<Rightarrow> 'g HierarchicalNSW \<Rightarrow> real buffer \<Rightarrow> nat \<Rightarrow>
   (labeltype buffer \<times> real buffer) option unit_fn" where
  "search_knn_fn searchKnn ix alg query k i threadId out =
     (case out of
        None \<Rightarrow> (None, None)
      | Some bufs \<Rightarrow>
          (let q = (if \<not> normalize_flag ix
                    then floats (ptr_add query (i * size_t_of_int (dim ix))) (size_t_of_int (dim ix))
                    else normalize_vector (ptr_add query (i * size_t_of_int (dim ix))) (dim ix))
           in case searchKnn alg q k of
                Inl e \<Rightarrow> (Some e, out)
              | Inr result \<Rightarrow>
                  if length result \<noteq> k
                  then (Some ''Cannot return results. Probably ef or M is too small'', out)
                  else (None, drain (int_of_size_t (size_t_pred k)) (i * k) result bufs)))"

text \<open>\<^verbatim>\<open>hnswlib_index_search_knn\<close>: the returned flag and the two result buffers; \<open>None\<close> when
  the schedule ends early or the behaviour is undefined.\<close>

definition hnswlib_index_search_knn ::
  "('g HierarchicalNSW \<Rightarrow> real list \<Rightarrow> nat \<Rightarrow> exn + result_queue) \<Rightarrow>
   nat \<Rightarrow> nat list \<Rightarrow> ('sp, 'g) HNSWIndex option \<Rightarrow> real buffer \<Rightarrow> nat \<Rightarrow>
   labeltype buffer \<Rightarrow> real buffer \<Rightarrow> nat \<Rightarrow> int \<Rightarrow>
   (bool \<times> labeltype buffer \<times> real buffer) option" where
  "hnswlib_index_search_knn searchKnn hw sched index query k result_labels result_distances
       query_count num_threads =
     (case index of
        None \<Rightarrow> Some (False, result_labels, result_distances)
      | Some ix \<Rightarrow>
          (case appr_alg ix of
             None \<Rightarrow> Some (False, result_labels, result_distances)
           | Some alg \<Rightarrow>
               (let num_threads = batch_threads (num_threads_default ix) query_count num_threads in
                if normalize_flag ix \<and> vector_alloc (num_threads * dim ix) \<noteq> None
                then Some (False, result_labels, result_distances)
                else
                  (case ParallelFor hw sched 0 query_count (size_t_of_int num_threads)
                          (search_knn_fn searchKnn ix alg query k)
                          (Some (result_labels, result_distances)) of
                     None \<Rightarrow> None
                   | Some (e, None) \<Rightarrow> None
                   | Some (Some e, Some bufs) \<Rightarrow> Some (False, bufs)
                   | Some (None, Some bufs) \<Rightarrow> Some (True, bufs)))))"

section \<open>The brute-force index\<close>

definition BFIndex_new ::
  "(int \<Rightarrow> exn + 'sp) \<Rightarrow> (int \<Rightarrow> exn + 'sp) \<Rightarrow> nat \<Rightarrow> SpaceType \<Rightarrow> int \<Rightarrow> exn + ('sp, 'b) BFIndex" where
  "BFIndex_new L2Space InnerProductSpace hw st d =
     (let this = \<lparr>bf_space_type = st, bf_dim = d, bf_normalize_flag = False,
                  bf_num_threads_default = int_of_size_t hw, bf_cur_l = 0,
                  bf_alg = None, bf_space = None\<rparr>
      in case st of
           SpaceTypeL2 \<Rightarrow>
             (case L2Space d of Inl e \<Rightarrow> Inl e | Inr sp \<Rightarrow> Inr (this\<lparr>bf_space := Some sp\<rparr>))
         | SpaceTypeIP \<Rightarrow>
             (case InnerProductSpace d of Inl e \<Rightarrow> Inl e | Inr sp \<Rightarrow> Inr (this\<lparr>bf_space := Some sp\<rparr>))
         | SpaceTypeCosine \<Rightarrow>
             (case InnerProductSpace d of Inl e \<Rightarrow> Inl e
              | Inr sp \<Rightarrow> Inr (this\<lparr>bf_space := Some sp, bf_normalize_flag := True\<rparr>)))"

definition hnswlib_bf_index_create ::
  "(int \<Rightarrow> exn + 'sp) \<Rightarrow> (int \<Rightarrow> exn + 'sp) \<Rightarrow> nat \<Rightarrow> SpaceType \<Rightarrow> int \<Rightarrow> ('sp, 'b) BFIndex option" where
  "hnswlib_bf_index_create L2Space InnerProductSpace hw st d =
     (case BFIndex_new L2Space InnerProductSpace hw st d of
        Inr index \<Rightarrow> Some index
      | Inl e \<Rightarrow> None)"

text \<open>The body of the loop of \<^verbatim>\<open>hnswlib_bf_index_add_items\<close>, and the loop.\<close>

definition bf_add_items_body ::
  "('b \<Rightarrow> real list \<Rightarrow> labeltype \<Rightarrow> exn option \<times> 'b) \<Rightarrow> ('sp, 'b) BFIndex \<Rightarrow> real buffer \<Rightarrow> nat \<Rightarrow>
   labeltype buffer option \<Rightarrow> nat \<Rightarrow> 'b \<Rightarrow> exn option \<times> 'b" where
  "bf_add_items_body addPoint ix data d ids row alg =
     (let label = (case ids of Some p \<Rightarrow> p row | None \<Rightarrow> bf_cur_l ix + of_nat row) in
      if \<not> bf_normalize_flag ix then addPoint alg (floats (ptr_add data (row * d)) d) label
      else
        (case vector_alloc (bf_dim ix) of
           Some e \<Rightarrow> (Some e, alg)
         | None \<Rightarrow>
             (let normalized_vector = normalize_vector (ptr_add data (row * d)) (bf_dim ix)
              in addPoint alg normalized_vector label)))"

function bf_add_items_loop ::
  "('b \<Rightarrow> real list \<Rightarrow> labeltype \<Rightarrow> exn option \<times> 'b) \<Rightarrow> ('sp, 'b) BFIndex \<Rightarrow> real buffer \<Rightarrow> nat \<Rightarrow>
   labeltype buffer option \<Rightarrow> nat \<Rightarrow> nat \<Rightarrow> 'b \<Rightarrow> exn option \<times> 'b" where
  "bf_add_items_loop addPoint ix data d ids row rows alg =
     (if row < rows then
        (case bf_add_items_body addPoint ix data d ids row alg of
           (Some e, alg') \<Rightarrow> (Some e, alg')
         | (None, alg') \<Rightarrow> bf_add_items_loop addPoint ix data d ids (row + 1) rows alg')
      else (None, alg))"
  by pat_completeness auto
termination
  by (relation "measure (\<lambda>(addPoint, ix, data, d, ids, row, rows, alg). rows - row)") auto

definition hnswlib_bf_index_add_items ::
  "('b \<Rightarrow> real list \<Rightarrow> labeltype \<Rightarrow> exn option \<times> 'b) \<Rightarrow> ('sp, 'b) BFIndex option \<Rightarrow> real buffer \<Rightarrow>
   nat \<Rightarrow> nat \<Rightarrow> labeltype buffer option \<Rightarrow> bool \<times> ('sp, 'b) BFIndex option" where
  "hnswlib_bf_index_add_items addPoint index data rows d ids =
     (case index of
        None \<Rightarrow> (False, None)
      | Some ix \<Rightarrow>
          (case bf_alg ix of
             None \<Rightarrow> (False, index)
           | Some alg \<Rightarrow>
               if d \<noteq> size_t_of_int (bf_dim ix) then (False, index)
               else
                 (case bf_add_items_loop addPoint ix data d ids 0 rows alg of
                    (Some e, alg') \<Rightarrow> (False, Some (ix\<lparr>bf_alg := Some alg'\<rparr>))
                  | (None, alg') \<Rightarrow>
                      (True, Some (ix\<lparr>bf_alg := Some alg',
                                      bf_cur_l := bf_cur_l ix + of_nat rows\<rparr>)))))"

text \<open>The thread count \<^verbatim>\<open>hnswlib_bf_index_search_knn\<close> passes to \<^verbatim>\<open>ParallelFor\<close>.\<close>

definition bf_search_threads :: "int \<Rightarrow> int \<Rightarrow> int" where
  "bf_search_threads threads_default num_threads =
     (if num_threads \<le> 0 then threads_default else num_threads)"

definition bf_search_knn_fn ::
  "('b \<Rightarrow> real list \<Rightarrow> nat \<Rightarrow> exn + result_queue) \<Rightarrow> ('sp, 'b) BFIndex \<Rightarrow> 'b \<Rightarrow> real buffer \<Rightarrow> nat \<Rightarrow>
   (labeltype buffer \<times> real buffer) option unit_fn" where
  "bf_search_knn_fn searchKnn ix alg query k i threadId out =
     (case out of
        None \<Rightarrow> (None, None)
      | Some bufs \<Rightarrow>
          (case (if \<not> bf_normalize_flag ix
                 then searchKnn alg (floats (ptr_add query (i * size_t_of_int (bf_dim ix)))
                                       (size_t_of_int (bf_dim ix))) k
                 else
                   (case vector_alloc (bf_dim ix) of
                      Some e \<Rightarrow> Inl e
                    | None \<Rightarrow>
                        (let normalized_query =
                               normalize_vector (ptr_add query (i * size_t_of_int (bf_dim ix))) (bf_dim ix)
                         in searchKnn alg normalized_query k))) of
             Inl e \<Rightarrow> (Some e, out)
           | Inr result \<Rightarrow> (None, drain (int_of_size_t (size_t_pred k)) (i * k) result bufs)))"

definition hnswlib_bf_index_search_knn ::
  "('b \<Rightarrow> real list \<Rightarrow> nat \<Rightarrow> exn + result_queue) \<Rightarrow>
   nat \<Rightarrow> nat list \<Rightarrow> ('sp, 'b) BFIndex option \<Rightarrow> real buffer \<Rightarrow> nat \<Rightarrow>
   labeltype buffer \<Rightarrow> real buffer \<Rightarrow> nat \<Rightarrow> int \<Rightarrow>
   (bool \<times> labeltype buffer \<times> real buffer) option" where
  "hnswlib_bf_index_search_knn searchKnn hw sched index query k result_labels result_distances
       query_count num_threads =
     (case index of
        None \<Rightarrow> Some (False, result_labels, result_distances)
      | Some ix \<Rightarrow>
          (case bf_alg ix of
             None \<Rightarrow> Some (False, result_labels, result_distances)
           | Some alg \<Rightarrow>
               (let num_threads = bf_search_threads (bf_num_threads_default ix) num_threads in
                case ParallelFor hw sched 0 query_count (size_t_of_int num_threads)
                       (bf_search_knn_fn searchKnn ix alg query k)
                       (Some (result_labels, result_distances)) of
                  None \<Rightarrow> None
                | Some (e, None) \<Rightarrow> None
                | Some (Some e, Some bufs) \<Rightarrow> Some (False, bufs)
                | Some (None, Some bufs) \<Rightarrow> Some (True, bufs))))"

section \<open>Observing a run of the executor\<close>

text \<open>What a schedule makes the workers do, read off the steps of \<open>run\<close>: the state after the
  whole schedule, the exceptions thrown by units in the order in which the handler records them,
  and the ids handed out to workers (the values of \<^verbatim>\<open>fetch_add\<close> below \<^verbatim>\<open>end\<close>).\<close>

fun exec :: "'s unit_fn \<Rightarrow> nat \<Rightarrow> nat list \<Rightarrow> 's pool \<Rightarrow> 's pool" where
  "exec fn endv [] st = st"
| "exec fn endv (c # cs) st =
     (if joined st then st else exec fn endv cs (worker_step fn endv (pick c st) st))"

definition thrown_by_step :: "'s unit_fn \<Rightarrow> nat \<Rightarrow> 's pool \<Rightarrow> exn list" where
  "thrown_by_step fn t st =
     (case workers st ! t of
        Running i \<Rightarrow> (case fst (fn i t (shared st)) of Some e \<Rightarrow> [e] | None \<Rightarrow> [])
      | _ \<Rightarrow> [])"

fun thrown :: "'s unit_fn \<Rightarrow> nat \<Rightarrow> nat list \<Rightarrow> 's pool \<Rightarrow> exn list" where
  "thrown fn endv [] st = []"
| "thrown fn endv (c # cs) st =
     (if joined st then []
      else thrown_by_step fn (pick c st) st @ thrown fn endv cs (worker_step fn endv (pick c st) st))"

definition dispatched_by_step :: "nat \<Rightarrow> nat \<Rightarrow> 's pool \<Rightarrow> nat list" where
  "dispatched_by_step endv t st =
     (case workers st ! t of
        Fetching \<Rightarrow> (if current st < endv then [current st] else [])
      | _ \<Rightarrow> [])"

fun dispatched :: "'s unit_fn \<Rightarrow> nat \<Rightarrow> nat list \<Rightarrow> 's pool \<Rightarrow> nat list" where
  "dispatched fn endv [] st = []"
| "dispatched fn endv (c # cs) st =
     (if joined st then []
      else dispatched_by_step endv (pick c st) st @
           dispatched fn endv cs (worker_step fn endv (pick c st) st))"

text \<open>The units whose call of \<^verbatim>\<open>fn\<close> is run to its end (by a return or by a throw) in the
  steps of a schedule, and the units in flight in a state: those handed to a worker whose call
  of \<^verbatim>\<open>fn\<close> has not yet been run.\<close>

definition executed_by_step :: "nat \<Rightarrow> 's pool \<Rightarrow> nat list" where
  "executed_by_step t st = (case workers st ! t of Running i \<Rightarrow> [i] | _ \<Rightarrow> [])"

fun executed :: "'s unit_fn \<Rightarrow> nat \<Rightarrow> nat list \<Rightarrow> 's pool \<Rightarrow> nat list" where
  "executed fn endv [] st = []"
| "executed fn endv (c # cs) st =
     (if joined st then []
      else executed_by_step (pick c st) st @
           executed fn endv cs (worker_step fn endv (pick c st) st))"

fun unit_of :: "wstate \<Rightarrow> nat list" where
  "unit_of (Running i) = [i]"
| "unit_of Fetching = []"
| "unit_of Exited = []"

definition in_flight :: "'s pool \<Rightarrow> nat list" where
  "in_flight st = concat (map unit_of (workers st))"

text \<open>The ids being worked on, and the bound on the number of steps a pool can still take.\<close>

definition running :: "'s pool \<Rightarrow> nat set" where
  "running st = {i. \<exists>t < length (workers st). workers st ! t = Running i}"

fun weight :: "wstate \<Rightarrow> nat" where
  "weight Fetching = 1"
| "weight (Running i) = 2"
| "weight Exited = 0"

definition steps_left :: "nat \<Rightarrow> 's pool \<Rightarrow> nat" where
  "steps_left endv st = 2 * (endv - current st) + sum_list (map weight (workers st))"

text \<open>What the lemmas about the executor ask of a work function, for a property \<open>P\<close> of the
  shared state and a property \<open>I D\<close> of the shared state once the units in \<open>D\<close> have completed:
  every unit of the range keeps \<open>P\<close>, and a unit that returns adds its id to \<open>D\<close>.\<close>

definition unit_ok ::
  "(nat set \<Rightarrow> 's \<Rightarrow> bool) \<Rightarrow> ('s \<Rightarrow> bool) \<Rightarrow> nat \<Rightarrow> nat \<Rightarrow> 's unit_fn \<Rightarrow> bool" where
  "unit_ok I P start endv fn =
     (\<forall>i t s. start \<le> i \<longrightarrow> i < endv \<longrightarrow> P s \<longrightarrow>
        P (snd (fn i t s)) \<and>
        (\<forall>D. I D s \<longrightarrow> i \<notin> D \<longrightarrow> fst (fn i t s) = None \<longrightarrow> I (insert i D) (snd (fn i t s))))"

text \<open>The invariant of the pool for a range \<open>[start, end)\<close>: workers only run ids of the range;
  once an exception has been recorded the cursor is at or beyond the end; and as long as none
  has been recorded, the ids below the cursor are exactly those completed (a set \<open>D\<close> for which
  \<open>I D\<close> holds of the shared state) and those being worked on, no id is run twice, and a
  worker has exited only after the cursor passed the end.\<close>

definition unique_units :: "wstate list \<Rightarrow> bool" where
  "unique_units ws =
     (\<forall>t < length ws. \<forall>t' < length ws. \<forall>i. ws ! t = Running i \<longrightarrow> ws ! t' = Running i \<longrightarrow> t = t')"

definition pool_inv ::
  "(nat set \<Rightarrow> 's \<Rightarrow> bool) \<Rightarrow> ('s \<Rightarrow> bool) \<Rightarrow> nat \<Rightarrow> nat \<Rightarrow> 's pool \<Rightarrow> bool" where
  "pool_inv I P start endv st =
     (P (shared st) \<and>
      (\<forall>i \<in> running st. start \<le> i \<and> i < endv) \<and>
      (lastException st \<noteq> None \<longrightarrow> endv \<le> current st) \<and>
      (lastException st = None \<longrightarrow>
         start \<le> current st \<and>
         (\<forall>i \<in> running st. i < current st) \<and>
         unique_units (workers st) \<and>
         (Exited \<in> set (workers st) \<longrightarrow> endv \<le> current st) \<and>
         (\<exists>D. I D (shared st) \<and> D \<inter> running st = {} \<and>
               D \<union> running st = {start..<min (current st) endv})))"

section \<open>The engine as the specification describes it\<close>

text \<open>Modelled from the spec: the constructors of the metric spaces (\<^verbatim>\<open>L2Space\<close> and
  \<^verbatim>\<open>InnerProductSpace\<close> of \<^verbatim>\<open>hnswlib.h\<close>) are not among the sources. Section 4.1 of the
  specification: construction fails (\<open>InvalidArgument\<close>) if dimension \<open>\<le> 0\<close>. A space object is
  its kind with its dimension.\<close>

datatype MetricSpace = L2 nat | InnerProduct nat

definition Spec_L2Space :: "int \<Rightarrow> exn + MetricSpace" where
  "Spec_L2Space d = (if d \<le> 0 then Inl ''InvalidArgument'' else Inr (L2 (nat d)))"

definition Spec_InnerProductSpace :: "int \<Rightarrow> exn + MetricSpace" where
  "Spec_InnerProductSpace d = (if d \<le> 0 then Inl ''InvalidArgument'' else Inr (InnerProduct (nat d)))"

text \<open>Modelled from the spec: the search of the engine (\<^verbatim>\<open>HierarchicalNSW::searchKnn\<close>) is not
  among the sources. Sections 3 and 4.2 of the specification: a node holds a label, its stored
  vector and a tombstone flag; the search runs a best-first search bounded by the current
  \<open>ef\<close> and returns the \<open>k\<close> closest live (non-tombstoned) results. Which nodes the traversal
  of the graph reaches is not fixed by the specification: \<open>reached ef q n\<close> is a parameter, as is
  the distance of the metric space.\<close>

record node =
  node_label :: labeltype
  node_vector :: "real list"
  tombstone :: bool

definition Spec_searchKnn ::
  "(nat \<Rightarrow> real list \<Rightarrow> node \<Rightarrow> bool) \<Rightarrow> (real list \<Rightarrow> real list \<Rightarrow> real) \<Rightarrow>
   node list HierarchicalNSW \<Rightarrow> real list \<Rightarrow> nat \<Rightarrow> exn + result_queue" where
  "Spec_searchKnn reached distance alg q k =
     Inr (take k (sort (map (\<lambda>n. (distance q (node_vector n), node_label n))
                          (filter (\<lambda>n. reached (ef_member alg) q n \<and> \<not> tombstone n) (rep alg)))))"

definition live :: "node list HierarchicalNSW \<Rightarrow> labeltype \<Rightarrow> bool" where
  "live alg l = (\<exists>n \<in> set (rep alg). node_label n = l \<and> \<not> tombstone n)"

section \<open>Recording what is handed to the engine\<close>

text \<open>Any engine can be run with a history beside it: the list of the (label, vector) pairs
  passed to \<^verbatim>\<open>addPoint\<close>, in the order of the calls. The history is not program state; it
  makes the calls of the wrapper observable.\<close>

definition recording ::
  "('g HierarchicalNSW \<Rightarrow> real list \<Rightarrow> labeltype \<Rightarrow> bool \<Rightarrow> exn option \<times> 'g HierarchicalNSW) \<Rightarrow>
   ('g \<times> (labeltype \<times> real list) list) HierarchicalNSW \<Rightarrow> real list \<Rightarrow> labeltype \<Rightarrow> bool \<Rightarrow>
   exn option \<times> ('g \<times> (labeltype \<times> real list) list) HierarchicalNSW" where
  "recording addPoint alg v l replace_deleted =
     (case addPoint \<lparr>ef_member = ef_member alg, rep = fst (rep alg)\<rparr> v l replace_deleted of
        (e, alg') \<Rightarrow>
          (e, \<lparr>ef_member = ef_member alg', rep = (rep alg', snd (rep alg) @ [(l, v)])\<rparr>))"

definition history :: "('sp, 'g \<times> (labeltype \<times> real list) list) HNSWIndex option \<Rightarrow> (labeltype \<times> real list) list" where
  "history index =
     (case index of
        None \<Rightarrow> []
      | Some ix \<Rightarrow> (case appr_alg ix of None \<Rightarrow> [] | Some alg \<Rightarrow> snd (rep alg)))"

definition bf_recording ::
  "('b \<Rightarrow> real list \<Rightarrow> labeltype \<Rightarrow> exn option \<times> 'b) \<Rightarrow>
   'b \<times> (labeltype \<times> real list) list \<Rightarrow> real list \<Rightarrow> labeltype \<Rightarrow>
   exn option \<times> 'b \<times> (labeltype \<times> real list) list" where
  "bf_recording addPoint alg v l =
     (case addPoint (fst alg) v l of (e, alg') \<Rightarrow> (e, alg', snd alg @ [(l, v)]))"


text \<open>The pairs a result block holds: the \<open>k\<close> cells from \<open>i * k\<close> on of the two buffers.\<close>

definition block :: "labeltype buffer \<times> real buffer \<Rightarrow> nat \<Rightarrow> nat \<Rightarrow> (real \<times> labeltype) list" where
  "block bufs i k = map (\<lambda>j. (snd bufs (i * k + j), fst bufs (i * k + j))) [0..<k]"

text \<open>The (label, vector) pair the wrapper is to hand to \<^verbatim>\<open>addPoint\<close> for the row at batch
  position \<open>row\<close>, and the vector it is to hand to \<^verbatim>\<open>searchKnn\<close> for query \<open>i\<close>; the
  theorems compare the calls of the wrapper with these.\<close>

definition handed ::
  "('sp, 'g) HNSWIndex \<Rightarrow> real buffer \<Rightarrow> nat \<Rightarrow> labeltype buffer option \<Rightarrow> nat \<Rightarrow> labeltype \<times> real list" where
  "handed ix data d ids row =
     ((case ids of Some p \<Rightarrow> p row | None \<Rightarrow> cur_l ix + of_nat row),
      (if normalize_flag ix then normalize_vector (ptr_add data (row * d)) (dim ix)
       else floats (ptr_add data (row * d)) d))"


definition search_query :: "('sp, 'g) HNSWIndex \<Rightarrow> real buffer \<Rightarrow> nat \<Rightarrow> real list" where
  "search_query ix query i =
     (if normalize_flag ix
      then normalize_vector (ptr_add query (i * size_t_of_int (dim ix))) (dim ix)
      else floats (ptr_add query (i * size_t_of_int (dim ix))) (size_t_of_int (dim ix)))"


section \<open>Concrete instances\<close>

text \<open>A small index and a stand-in engine, on which the theorems below are instantiated: a
  freshly created L2 index of dimension 2 on a host with 8 hardware threads, and an engine
  constructor that always succeeds.\<close>

definition fresh_index :: "(MetricSpace, 'g) HNSWIndex" where
  "fresh_index =
     \<lparr>space_type = SpaceTypeL2, dim = 2, normalize_flag = False, index_inited = False,
      ep_added = False, num_threads_default = 8, cur_l = 0, appr_alg = None,
      space = Some (L2 2), default_ef = 10\<rparr>"

definition plain_engine ::
  "MetricSpace \<Rightarrow> nat \<Rightarrow> nat \<Rightarrow> nat \<Rightarrow> nat \<Rightarrow> bool \<Rightarrow> exn + 'g list HierarchicalNSW" where
  "plain_engine sp max_elements M ef_construction random_seed allow_replace_deleted =
     Inr \<lparr>ef_member = 10, rep = []\<rparr>"

text \<open>An initialised L2 index of dimension 1 holding three nodes, the second of them
  tombstoned; a traversal that reaches every node; the squared Euclidean distance in
  dimension 1; a query buffer and result buffers filled with zeros.\<close>

definition three_nodes :: "node list HierarchicalNSW" where
  "three_nodes =
     \<lparr>ef_member = 10,
      rep = [\<lparr>node_label = 5, node_vector = [1], tombstone = False\<rparr>,
             \<lparr>node_label = 6, node_vector = [2], tombstone = True\<rparr>,
             \<lparr>node_label = 7, node_vector = [4], tombstone = False\<rparr>]\<rparr>"

definition populated_index :: "(MetricSpace, node list) HNSWIndex" where
  "populated_index =
     \<lparr>space_type = SpaceTypeL2, dim = 1, normalize_flag = False, index_inited = True,
      ep_added = True, num_threads_default = 8, cur_l = 3, appr_alg = Some three_nodes,
      space = Some (L2 1), default_ef = 10\<rparr>"

definition reach_all :: "nat \<Rightarrow> real list \<Rightarrow> node \<Rightarrow> bool" where
  "reach_all ef q n = True"

definition gap :: "real list \<Rightarrow> real list \<Rightarrow> real" where
  "gap q v = (q ! 0 - v ! 0) * (q ! 0 - v ! 0)"

definition zeros :: "'a::zero buffer" where
  "zeros = (\<lambda>i. 0)"

text \<open>An engine that accepts every point, run with a history; an initialised, still empty L2
  index of dimension 1 over it, and the same as a brute-force index; a data buffer holding
  0, 1, 2, ...; and a schedule for two workers in which the second worker finishes each of its
  units before the first one does.\<close>

definition accept_all ::
  "'g HierarchicalNSW \<Rightarrow> real list \<Rightarrow> labeltype \<Rightarrow> bool \<Rightarrow> exn option \<times> 'g HierarchicalNSW" where
  "accept_all alg v l replace_deleted = (None, alg)"

definition bf_accept_all :: "'b \<Rightarrow> real list \<Rightarrow> labeltype \<Rightarrow> exn option \<times> 'b" where
  "bf_accept_all alg v l = (None, alg)"

definition empty_index :: "(MetricSpace, unit \<times> (labeltype \<times> real list) list) HNSWIndex" where
  "empty_index =
     \<lparr>space_type = SpaceTypeL2, dim = 1, normalize_flag = False, index_inited = True,
      ep_added = False, num_threads_default = 8, cur_l = 0,
      appr_alg = Some \<lparr>ef_member = 10, rep = ((), [])\<rparr>, space = Some (L2 1), default_ef = 10\<rparr>"

definition empty_bf_index :: "(MetricSpace, unit \<times> (labeltype \<times> real list) list) BFIndex" where
  "empty_bf_index =
     \<lparr>bf_space_type = SpaceTypeL2, bf_dim = 1, bf_normalize_flag = False,
      bf_num_threads_default = 8, bf_cur_l = 0, bf_alg = Some ((), []), bf_space = Some (L2 1)\<rparr>"

definition ramp :: "real buffer" where
  "ramp = (\<lambda>i. real i)"

definition second_first :: "nat list" where
  "second_first = [0, 1, 1, 0, 0, 1, 1, 0, 0, 1, 1, 0, 0, 1, 1, 0, 0, 0]"

text \<open>A batch of nine rows with the labels 1000, 1001, ... added to the empty index with a
  given thread count under a given schedule.\<close>

definition labelled_batch ::
  "int \<Rightarrow> nat list \<Rightarrow>
   (bool \<times> (MetricSpace, unit \<times> (labeltype \<times> real list) list) HNSWIndex option) option" where
  "labelled_batch threads sched =
     hnswlib_index_add_items (recording accept_all) 8 sched (Some empty_index) ramp 9 1
       (Some (\<lambda>i. 1000 + of_nat i)) threads False"

text \<open>A work function that throws on every unit, with a message that names the unit.\<close>

definition fail_both :: "unit unit_fn" where
  "fail_both i threadId s = (Some (if i = 0 then ''unit 0'' else ''unit 1''), s)"

text \<open>A brute-force index over the same three nodes with a linear scan as its search, and the
  cosine variants of the indexes above; a data buffer holding 3 everywhere.\<close>

definition scan :: "node list \<Rightarrow> real list \<Rightarrow> nat \<Rightarrow> exn + result_queue" where
  "scan alg q k = Inr (take k (sort (map (\<lambda>n. (gap q (node_vector n), node_label n)) alg)))"

definition populated_bf :: "(MetricSpace, node list) BFIndex" where
  "populated_bf =
     \<lparr>bf_space_type = SpaceTypeL2, bf_dim = 1, bf_normalize_flag = False,
      bf_num_threads_default = 8, bf_cur_l = 3, bf_alg = Some (rep three_nodes),
      bf_space = Some (L2 1)\<rparr>"







section \<open>Facts about the executor\<close>

text \<open>The defining equations of the loops are unfolded by hand, one iteration at a time.\<close>

declare ParallelFor_loop.simps [simp del]
declare bf_add_items_loop.simps [simp del]
declare drain.simps [simp del]


lemma enabled_iff: "t \<in> set (enabled st) \<longleftrightarrow> t < length (workers st) \<and> workers st ! t \<noteq> Exited"
  by (auto simp: enabled_def)

lemma pick_enabled: "\<not> joined st \<Longrightarrow> pick c st \<in> set (enabled st)"
  by (simp add: joined_def pick_def)

lemma pick_valid: "\<not> joined st \<Longrightarrow> pick c st < length (workers st) \<and> workers st ! pick c st \<noteq> Exited"
  using pick_enabled enabled_iff by blast

lemma joined_iff: "joined st \<longleftrightarrow> (\<forall>t < length (workers st). workers st ! t = Exited)"
  by (auto simp: joined_def enabled_def filter_empty_conv)

lemma sum_weight_update:
  "t < length ws \<Longrightarrow>
   sum_list (map weight (ws[t := w])) + weight (ws ! t) = sum_list (map weight ws) + weight w"
  by (induction ws arbitrary: t) (auto split: nat.splits)

lemma steps_left_decreases:
  assumes "t < length (workers st)" "workers st ! t \<noteq> Exited"
  shows "steps_left endv (worker_step fn endv t st) < steps_left endv st"
proof (cases "workers st ! t")
  case Fetching
  with assms sum_weight_update[of t "workers st" "Running (current st)"]
       sum_weight_update[of t "workers st" Exited]
  show ?thesis by (auto simp: steps_left_def worker_step_def Let_def)
next
  case (Running i)
  with assms sum_weight_update[of t "workers st" Fetching]
       sum_weight_update[of t "workers st" Exited]
  show ?thesis by (auto simp: steps_left_def worker_step_def Let_def split: prod.splits option.splits)
next
  case Exited
  with assms show ?thesis by simp
qed

lemma steps_left_0_joined: "steps_left endv st = 0 \<Longrightarrow> joined st"
proof -
  assume a: "steps_left endv st = 0"
  have "\<forall>w \<in> set (workers st). weight w = 0"
    using a by (auto simp: steps_left_def)
  hence "\<forall>w \<in> set (workers st). w = Exited"
    by (metis weight.elims zero_neq_numeral zero_neq_one)
  thus ?thesis by (auto simp: joined_iff)
qed

lemma run_terminates:
  "steps_left endv st \<le> length sched \<Longrightarrow> \<exists>st'. run fn endv sched st = Some st'"
proof (induction sched arbitrary: st)
  case Nil
  then show ?case using steps_left_0_joined by auto
next
  case (Cons c cs)
  show ?case
  proof (cases "joined st")
    case True
    then show ?thesis by simp
  next
    case False
    from pick_valid[OF False, of c] steps_left_decreases[of "pick c st" st endv fn]
    have "steps_left endv (worker_step fn endv (pick c st) st) < steps_left endv st" by blast
    with Cons.prems have "steps_left endv (worker_step fn endv (pick c st) st) \<le> length cs" by simp
    from Cons.IH[OF this] False show ?thesis by simp
  qed
qed
lemma running_update:
  "t < length (workers st) \<Longrightarrow>
   running (st\<lparr>workers := (workers st)[t := w]\<rparr>) =
     {i. \<exists>t' < length (workers st). t' \<noteq> t \<and> workers st ! t' = Running i} \<union>
     (case w of Running i \<Rightarrow> {i} | _ \<Rightarrow> {})"
  by (cases w) (auto simp: running_def nth_list_update)

lemma running_others_idle:
  "t < length (workers st) \<Longrightarrow> \<forall>i. workers st ! t \<noteq> Running i \<Longrightarrow>
   {i. \<exists>t' < length (workers st). t' \<noteq> t \<and> workers st ! t' = Running i} = running st"
  by (auto simp: running_def)

lemma running_others_busy:
  assumes "t < length (workers st)" "workers st ! t = Running i" "unique_units (workers st)"
  shows "{j. \<exists>t' < length (workers st). t' \<noteq> t \<and> workers st ! t' = Running j} = running st - {i}"
proof (intro set_eqI iffI)
  fix j
  assume "j \<in> {j. \<exists>t' < length (workers st). t' \<noteq> t \<and> workers st ! t' = Running j}"
  then obtain t' where t': "t' < length (workers st)" "t' \<noteq> t" "workers st ! t' = Running j" by blast
  hence "j \<in> running st" by (auto simp: running_def)
  moreover have "j \<noteq> i"
  proof
    assume "j = i"
    with t' assms have "t' = t" unfolding unique_units_def by blast
    with t'(2) show False by simp
  qed
  ultimately show "j \<in> running st - {i}" by simp
next
  fix j
  assume "j \<in> running st - {i}"
  then obtain t' where t': "t' < length (workers st)" "workers st ! t' = Running j" and ne: "j \<noteq> i"
    by (auto simp: running_def)
  with assms(2) have "t' \<noteq> t" by auto
  with t' show "j \<in> {j. \<exists>t' < length (workers st). t' \<noteq> t \<and> workers st ! t' = Running j}" by blast
qed

lemma running_others_subset:
  "{i. \<exists>t' < length (workers st). t' \<noteq> t \<and> workers st ! t' = Running i} \<subseteq> running st"
  by (auto simp: running_def)

lemma unique_units_idle:
  assumes "unique_units ws" "\<forall>i. w \<noteq> Running i"
  shows "unique_units (ws[t := w])"
  unfolding unique_units_def
proof (intro allI impI)
  fix a b j
  assume a: "a < length (ws[t := w])" and b: "b < length (ws[t := w])"
    and ra: "ws[t := w] ! a = Running j" and rb: "ws[t := w] ! b = Running j"
  from ra a assms(2) have "a \<noteq> t" by (metis length_list_update nth_list_update_eq)
  moreover from rb b assms(2) have "b \<noteq> t" by (metis length_list_update nth_list_update_eq)
  ultimately have "ws ! a = Running j" "ws ! b = Running j" using ra rb by simp_all
  with assms(1) a b show "a = b" by (simp add: unique_units_def)
qed

lemma unique_units_fresh:
  assumes "unique_units ws" "\<forall>t' < length ws. ws ! t' \<noteq> Running i"
  shows "unique_units (ws[t := Running i])"
  unfolding unique_units_def
proof (intro allI impI)
  fix a b j
  assume a: "a < length (ws[t := Running i])" and b: "b < length (ws[t := Running i])"
    and ra: "ws[t := Running i] ! a = Running j" and rb: "ws[t := Running i] ! b = Running j"
  show "a = b"
  proof (cases "a = t")
    case True
    with ra a have "j = i" by simp
    with rb b assms(2) show ?thesis using True by (cases "b = t") auto
  next
    case False
    with ra have ra': "ws ! a = Running j" by simp
    show ?thesis
    proof (cases "b = t")
      case True
      with rb b have "j = i" by simp
      with ra' a assms(2) show ?thesis by simp
    next
      case False
      with rb have "ws ! b = Running j" by simp
      with ra' assms(1) a b show ?thesis by (simp add: unique_units_def)
    qed
  qed
qed

lemma Exited_update:
  assumes "Exited \<in> set (ws[t := w])" "w \<noteq> Exited"
  shows "Exited \<in> set ws"
proof -
  from assms(1) obtain a where a: "a < length ws" "ws[t := w] ! a = Exited"
    by (auto simp: in_set_conv_nth)
  with assms(2) have "a \<noteq> t" by auto
  with a have "ws ! a = Exited" by simp
  with a(1) show ?thesis by (metis nth_mem)
qed

lemma pool_inv_fetch:
  assumes inv: "pool_inv I P start endv st"
    and t: "t < length (workers st)" and w: "workers st ! t = Fetching"
  shows "pool_inv I P start endv (worker_step fn endv t st)"
proof -
  let ?ws = "workers st"
  let ?c = "current st"
  have others: "{i. \<exists>t' < length ?ws. t' \<noteq> t \<and> ?ws ! t' = Running i} = running st"
    using running_others_idle[OF t] w by simp
  show ?thesis
  proof (cases "endv \<le> ?c")
    case True
    have st': "worker_step fn endv t st = st\<lparr>current := ?c + 1, workers := ?ws[t := Exited]\<rparr>"
      using w True by (simp add: worker_step_def Let_def)
    have r: "running (worker_step fn endv t st) = running st"
      unfolding st' using running_update[OF t, of Exited] others by (simp add: running_def)
    have u: "lastException st = None \<Longrightarrow> unique_units (?ws[t := Exited])"
      using inv unique_units_idle[of ?ws Exited t] by (simp add: pool_inv_def)
    have m: "min (?c + 1) endv = min ?c endv" using True by simp
    show ?thesis
      using inv True u unfolding pool_inv_def r m
      by (auto simp: st')
  next
    case False
    hence lt: "?c < endv" by simp
    have st': "worker_step fn endv t st = st\<lparr>current := ?c + 1, workers := ?ws[t := Running ?c]\<rparr>"
      using w False by (simp add: worker_step_def Let_def)
    have r: "running (worker_step fn endv t st) = insert ?c (running st)"
      unfolding st' using running_update[OF t, of "Running ?c"] others by (simp add: running_def)
    have le: "lastException st = None" using inv lt by (auto simp: pool_inv_def)
    from inv le have sc: "start \<le> ?c" and rl: "\<forall>i \<in> running st. i < ?c"
      and dist: "unique_units ?ws"
      and nex: "Exited \<notin> set ?ws"
      using lt by (auto simp: pool_inv_def)
    from inv le obtain D where D: "I D (shared st)" "D \<inter> running st = {}"
        "D \<union> running st = {start..<min ?c endv}"
      by (auto simp: pool_inv_def)
    have nex': "Exited \<notin> set (?ws[t := Running ?c])"
      using nex Exited_update by blast
    have no: "\<forall>t' < length ?ws. ?ws ! t' \<noteq> Running ?c"
      using rl by (auto simp: running_def)
    have dist': "unique_units (?ws[t := Running ?c])"
      using unique_units_fresh[OF dist no] .
    have "D \<subseteq> {start..<min ?c endv}" using D(3) by blast
    hence Dc: "?c \<notin> D" by auto
    have un: "D \<union> insert ?c (running st) = {start..<min (?c + 1) endv}"
      using D(3) sc lt by (auto simp: min_def)
    have dj: "D \<inter> insert ?c (running st) = {}" using D(2) Dc by auto
    have P: "P (shared st)" and rng: "\<forall>i \<in> running st. start \<le> i \<and> i < endv"
      using inv by (auto simp: pool_inv_def)
    have ex: "\<exists>D. I D (shared st) \<and> D \<inter> insert ?c (running st) = {} \<and>
              D \<union> insert ?c (running st) = {start..<min (?c + 1) endv}"
      using D(1) dj un by blast
    have rl': "\<forall>i \<in> insert ?c (running st). i < ?c + 1" using rl by auto
    have rng': "\<forall>i \<in> insert ?c (running st). start \<le> i \<and> i < endv" using rng sc lt by auto
    show ?thesis
      unfolding pool_inv_def r
      using P rng' rl' dist' nex' ex le by (simp add: st')
  qed
qed

lemma pool_invI:
  assumes "P (shared st)" "\<forall>i \<in> running st. start \<le> i \<and> i < endv"
    "lastException st \<noteq> None \<Longrightarrow> endv \<le> current st"
    "lastException st = None \<Longrightarrow> start \<le> current st"
    "lastException st = None \<Longrightarrow> \<forall>i \<in> running st. i < current st"
    "lastException st = None \<Longrightarrow> unique_units (workers st)"
    "lastException st = None \<Longrightarrow> Exited \<in> set (workers st) \<Longrightarrow> endv \<le> current st"
    "lastException st = None \<Longrightarrow> \<exists>D. I D (shared st) \<and> D \<inter> running st = {} \<and>
               D \<union> running st = {start..<min (current st) endv}"
  shows "pool_inv I P start endv st"
  using assms unfolding pool_inv_def by blast

lemma unit_okD1:
  "unit_ok I P start endv fn \<Longrightarrow> start \<le> i \<Longrightarrow> i < endv \<Longrightarrow> P s \<Longrightarrow> P (snd (fn i t s))"
  by (simp add: unit_ok_def)

lemma unit_okD2:
  "unit_ok I P start endv fn \<Longrightarrow> start \<le> i \<Longrightarrow> i < endv \<Longrightarrow> P s \<Longrightarrow> I D s \<Longrightarrow> i \<notin> D \<Longrightarrow>
   fst (fn i t s) = None \<Longrightarrow> I (insert i D) (snd (fn i t s))"
  by (simp add: unit_ok_def)

lemma pool_inv_unit:
  assumes inv: "pool_inv I P start endv st"
    and ok: "unit_ok I P start endv fn"
    and t: "t < length (workers st)" and w: "workers st ! t = Running i"
  shows "pool_inv I P start endv (worker_step fn endv t st)"
proof -
  let ?ws = "workers st"
  have irun: "i \<in> running st" using t w by (auto simp: running_def)
  have P: "P (shared st)" and rng: "\<forall>i \<in> running st. start \<le> i \<and> i < endv"
    using inv by (auto simp: pool_inv_def)
  from rng irun have i: "start \<le> i" "i < endv" by auto
  obtain e s' where f: "fn i t (shared st) = (e, s')" by (cases "fn i t (shared st)")
  from unit_okD1[OF ok i P, of t] f have P': "P s'" by simp
  show ?thesis
  proof (cases e)
    case (Some x)
    have st': "worker_step fn endv t st =
        st\<lparr>current := endv, lastException := Some x, workers := ?ws[t := Exited], shared := s'\<rparr>"
      using w f Some by (simp add: worker_step_def)
    have r: "running (worker_step fn endv t st) \<subseteq> running st"
      unfolding st' using running_update[OF t, of Exited] running_others_subset[of st t]
      by (simp add: running_def)
    show ?thesis
    proof (rule pool_invI)
      show "P (shared (worker_step fn endv t st))" using P' by (simp add: st')
      show "\<forall>i \<in> running (worker_step fn endv t st). start \<le> i \<and> i < endv" using r rng by blast
      show "endv \<le> current (worker_step fn endv t st)" by (simp add: st')
    qed (simp_all add: st')
  next
    case None
    have st': "worker_step fn endv t st = st\<lparr>workers := ?ws[t := Fetching], shared := s'\<rparr>"
      using w f None by (simp add: worker_step_def)
    have rs: "running (worker_step fn endv t st) \<subseteq> running st"
      unfolding st' using running_update[OF t, of Fetching] running_others_subset[of st t]
      by (simp add: running_def)
    show ?thesis
    proof (cases "lastException st")
      case (Some x)
      have c: "endv \<le> current st" using inv Some by (simp add: pool_inv_def)
      show ?thesis
      proof (rule pool_invI)
        show "P (shared (worker_step fn endv t st))" using P' by (simp add: st')
        show "\<forall>i \<in> running (worker_step fn endv t st). start \<le> i \<and> i < endv" using rs rng by blast
        show "endv \<le> current (worker_step fn endv t st)" using c by (simp add: st')
      qed (simp_all add: st' Some)
    next
      case le: None
      from inv le have sc: "start \<le> current st" and rl: "\<forall>i \<in> running st. i < current st"
        and dist: "unique_units ?ws"
        and nex: "Exited \<in> set ?ws \<longrightarrow> endv \<le> current st"
        by (auto simp: pool_inv_def)
      from inv le obtain D where D: "I D (shared st)" "D \<inter> running st = {}"
          "D \<union> running st = {start..<min (current st) endv}"
        by (auto simp: pool_inv_def)
      have r: "running (worker_step fn endv t st) = running st - {i}"
        unfolding st' using running_update[OF t, of Fetching] running_others_busy[OF t w dist]
        by (simp add: running_def)
      have iD: "i \<notin> D" using D(2) irun by auto
      have I': "I (insert i D) s'"
        using unit_okD2[OF ok i P D(1) iD, of t] f None by simp
      have dist': "unique_units (?ws[t := Fetching])" using unique_units_idle[OF dist] by simp
      have nex': "Exited \<in> set (?ws[t := Fetching]) \<longrightarrow> endv \<le> current st"
        using nex Exited_update by blast
      have dj: "insert i D \<inter> (running st - {i}) = {}" using D(2) by auto
      have un: "insert i D \<union> (running st - {i}) = {start..<min (current st) endv}"
        using D(3) irun by auto
      have ex: "\<exists>D. I D s' \<and> D \<inter> (running st - {i}) = {} \<and>
                D \<union> (running st - {i}) = {start..<min (current st) endv}"
        using I' dj un by blast
      show ?thesis
      proof (rule pool_invI)
        show "P (shared (worker_step fn endv t st))" using P' by (simp add: st')
        show "\<forall>i \<in> running (worker_step fn endv t st). start \<le> i \<and> i < endv" using rs rng by blast
        show "start \<le> current (worker_step fn endv t st)" using sc by (simp add: st')
        show "\<forall>i \<in> running (worker_step fn endv t st). i < current (worker_step fn endv t st)"
          unfolding r using rl by (simp add: st')
        show "unique_units (workers (worker_step fn endv t st))" using dist' by (simp add: st')
        show "endv \<le> current (worker_step fn endv t st)"
          if "Exited \<in> set (workers (worker_step fn endv t st))"
          using that nex' by (simp add: st')
        show "\<exists>D. I D (shared (worker_step fn endv t st)) \<and>
                D \<inter> running (worker_step fn endv t st) = {} \<and>
                D \<union> running (worker_step fn endv t st) =
                  {start..<min (current (worker_step fn endv t st)) endv}"
          unfolding r using ex by (simp add: st')
      qed (simp_all add: st' le)
    qed
  qed
qed

lemma pool_inv_step:
  assumes "pool_inv I P start endv st" "unit_ok I P start endv fn" "\<not> joined st"
  shows "pool_inv I P start endv (worker_step fn endv (pick c st) st)"
proof -
  from pick_valid[OF assms(3), of c]
  have t: "pick c st < length (workers st)" and ne: "workers st ! pick c st \<noteq> Exited" by auto
  show ?thesis
  proof (cases "workers st ! pick c st")
    case Fetching
    then show ?thesis using pool_inv_fetch[OF assms(1) t] by simp
  next
    case (Running i)
    then show ?thesis using pool_inv_unit[OF assms(1,2) t] by simp
  next
    case Exited
    with ne show ?thesis by simp
  qed
qed

lemma pool_inv_run:
  "pool_inv I P start endv st \<Longrightarrow> unit_ok I P start endv fn \<Longrightarrow>
   run fn endv sched st = Some st' \<Longrightarrow> pool_inv I P start endv st' \<and> joined st'"
proof (induction sched arbitrary: st)
  case Nil
  then show ?case by (auto split: if_splits)
next
  case (Cons c cs)
  show ?case
  proof (cases "joined st")
    case True
    with Cons.prems show ?thesis by simp
  next
    case False
    with Cons.prems have "run fn endv cs (worker_step fn endv (pick c st) st) = Some st'" by simp
    from Cons.IH[OF pool_inv_step[OF Cons.prems(1,2) False] Cons.prems(2) this]
    show ?thesis .
  qed
qed

lemma pool_inv_spawn:
  "P s \<Longrightarrow> I {} s \<Longrightarrow> pool_inv I P start endv (spawn n start s)"
  by (auto simp: pool_inv_def spawn_def running_def unique_units_def)

lemma pool_inv_joined:
  assumes "pool_inv I P start endv st" "joined st" "workers st \<noteq> []"
    and le: "lastException st = None"
  shows "I {start..<endv} (shared st)"
proof -
  have all: "\<forall>t < length (workers st). workers st ! t = Exited"
    using assms(2) by (simp add: joined_iff)
  hence r: "running st = {}" by (auto simp: running_def)
  have ex: "Exited \<in> set (workers st)"
    using all assms(3) by (metis length_greater_0_conv nth_mem)
  from assms(1) le ex have c: "endv \<le> current st" by (simp add: pool_inv_def)
  from assms(1) le obtain D where D: "I D (shared st)" "D \<union> running st = {start..<min (current st) endv}"
    by (auto simp: pool_inv_def)
  from c have "min (current st) endv = endv" by simp
  with D r show ?thesis by simp
qed

lemma pool_inv_shared: "pool_inv I P start endv st \<Longrightarrow> P (shared st)"
  by (simp add: pool_inv_def)

lemma run_length: "run fn endv sched st = Some st' \<Longrightarrow> length (workers st') = length (workers st)"
proof (induction sched arbitrary: st)
  case Nil
  then show ?case by (auto split: if_splits)
next
  case (Cons c cs)
  have "length (workers (worker_step fn endv (pick c st) st)) = length (workers st)"
    by (auto simp: worker_step_def Let_def split: wstate.splits prod.splits option.splits)
  with Cons show ?case by (auto split: if_splits)
qed
lemma ParallelFor_loop_inv:
  "unit_ok I P start endv fn \<Longrightarrow> P s \<Longrightarrow> I {start..<i} s \<Longrightarrow> start \<le> i \<Longrightarrow> ParallelFor_loop fn i endv s = (e, s') \<Longrightarrow>
   P s' \<and> (e = None \<longrightarrow> I ({start..<i} \<union> {i..<endv}) s')"
proof (induction fn i endv s rule: ParallelFor_loop.induct)
  case (1 fn i endv s)
  show ?case
  proof (cases "i < endv")
    case False
    with "1.prems" show ?thesis by (simp add: ParallelFor_loop.simps[of fn i])
  next
    case True
    obtain r s1 where f: "fn i 0 s = (r, s1)" by (cases "fn i 0 s")
    from unit_okD1[OF "1.prems"(1) "1.prems"(4) True "1.prems"(2), of 0] f have P1: "P s1" by simp
    show ?thesis
    proof (cases r)
      case (Some x)
      with True f "1.prems"(5) P1 show ?thesis by (auto simp: ParallelFor_loop.simps[of fn i])
    next
      case None
      have "i \<notin> {start..<i}" by simp
      from unit_okD2[OF "1.prems"(1) "1.prems"(4) True "1.prems"(2) "1.prems"(3) this, of 0] f None
      have "I (insert i {start..<i}) s1" by simp
      moreover have "insert i {start..<i} = {start..<i + 1}" using "1.prems"(4) by auto
      ultimately have I1: "I {start..<i + 1} s1" by simp
      from True f None "1.prems"(5) have run: "ParallelFor_loop fn (i + 1) endv s1 = (e, s')"
        by (simp add: ParallelFor_loop.simps[of fn i])
      have "start \<le> i + 1" using "1.prems"(4) by simp
      from "1.IH"[OF True f[symmetric] None "1.prems"(1) P1 I1 this run]
      have "P s' \<and> (e = None \<longrightarrow> I ({start..<i + 1} \<union> {i + 1..<endv}) s')" .
      moreover have "{start..<i + 1} \<union> {i + 1..<endv} = {start..<i} \<union> {i..<endv}"
        using "1.prems"(4) True by auto
      ultimately show ?thesis by simp
    qed
  qed
qed

lemma steps_left_spawn: "steps_left endv (spawn n start s) = 2 * (endv - start) + n"
  by (induction n) (auto simp: steps_left_def spawn_def)

lemma ParallelFor_inv:
  assumes ok: "unit_ok I P start endv fn" and P: "P s" and I: "I {} s"
    and run: "ParallelFor hw sched start endv numThreads fn s = Some (e, s')"
  shows "P s' \<and> (e = None \<longrightarrow> numThreads \<noteq> 0 \<or> hw \<noteq> 0 \<longrightarrow> I {start..<endv} s')"
proof -
  define n where "n = (if numThreads \<le> 0 then hw else numThreads)"
  show ?thesis
  proof (cases "n = 1")
    case True
    with run have "ParallelFor_loop fn start endv s = (e, s')"
      by (simp add: ParallelFor_def n_def Let_def)
    from ParallelFor_loop_inv[OF ok P _ _ this] I show ?thesis by simp
  next
    case False
    with run obtain st where st: "run fn endv sched (spawn n start s) = Some st"
      and out: "e = lastException st" "s' = shared st"
      by (auto simp: ParallelFor_def n_def Let_def)
    have "pool_inv I P start endv (spawn n start s)" using P I by (rule pool_inv_spawn)
    from pool_inv_run[OF this ok st]
    have inv: "pool_inv I P start endv st" and j: "joined st" by auto
    have len: "length (workers st) = n" using run_length[OF st] by (simp add: spawn_def)
    have "I {start..<endv} s'" if "e = None" "numThreads \<noteq> 0 \<or> hw \<noteq> 0"
    proof -
      from that(2) have "n \<noteq> 0" by (auto simp: n_def)
      with len have "workers st \<noteq> []" by auto
      from pool_inv_joined[OF inv j this] that(1) out show ?thesis by simp
    qed
    with pool_inv_shared[OF inv] out show ?thesis by simp
  qed
qed

lemma ParallelFor_keeps:
  assumes step: "\<And>i t s. start \<le> i \<Longrightarrow> i < endv \<Longrightarrow> P s \<Longrightarrow> P (snd (fn i t s))"
    and P: "P s" and run: "ParallelFor hw sched start endv numThreads fn s = Some (e, s')"
  shows "P s'"
proof -
  have "unit_ok (\<lambda>D s. True) P start endv fn" using step by (simp add: unit_ok_def)
  from ParallelFor_inv[OF this P _ run] show ?thesis by simp
qed

lemma ParallelFor_all_done:
  assumes "unit_ok I P start endv fn" "P s" "I {} s" "numThreads \<noteq> 0 \<or> hw \<noteq> 0"
    and "ParallelFor hw sched start endv numThreads fn s = Some (None, s')"
  shows "I {start..<endv} s'"
  using ParallelFor_inv[OF assms(1,2,3,5)] assms(4) by blast

lemma ParallelFor_terminates:
  assumes "2 * (endv - start) + (if numThreads = 0 then hw else numThreads) \<le> length sched"
  shows "\<exists>out. ParallelFor hw sched start endv numThreads fn s = Some out"
proof -
  define n where "n = (if numThreads \<le> 0 then hw else numThreads)"
  have "steps_left endv (spawn n start s) \<le> length sched"
    using assms by (simp add: steps_left_spawn n_def)
  from run_terminates[OF this, of fn] show ?thesis
    by (auto simp: ParallelFor_def n_def Let_def)
qed

lemma ParallelFor_loop_end: "endv \<le> i \<Longrightarrow> ParallelFor_loop fn i endv s = (None, s)"
  by (simp add: ParallelFor_loop.simps[of fn i])

lemma ParallelFor_loop_unfold:
  "i < endv \<Longrightarrow>
   ParallelFor_loop fn i endv s =
     (case fn i 0 s of
        (Some e, s') \<Rightarrow> (Some e, s')
      | (None, s') \<Rightarrow> ParallelFor_loop fn (i + 1) endv s')"
  by (simp add: ParallelFor_loop.simps[of fn i])

section \<open>Facts about the result queue\<close>

lemma pq_top_Max: "q \<noteq> [] \<Longrightarrow> pq_top q = Max (set q)"
proof (cases q)
  case Nil
  assume "q \<noteq> []"
  with Nil show ?thesis by simp
next
  case (Cons x xs)
  have "Max (set (x # xs)) = fold max xs x" by (rule Max.set_eq_fold)
  with Cons show ?thesis by simp
qed

lemma pq_top_in: "q \<noteq> [] \<Longrightarrow> pq_top q \<in> set q"
  using Max_in[of "set q"] by (simp add: pq_top_Max)

lemma pq_top_ge: "x \<in> set q \<Longrightarrow> x \<le> pq_top q"
  using Max_ge[of "set q" x] by (cases "q = []") (simp_all add: pq_top_Max)

lemma length_pq_pop: "q \<noteq> [] \<Longrightarrow> length (pq_pop q) = length q - 1"
  by (simp add: pq_pop_def length_remove1 pq_top_in)

lemma sort_pq_pop:
  assumes "q \<noteq> []"
  shows "sort q = sort (pq_pop q) @ [pq_top q]"
proof (rule properties_for_sort)
  show "mset (sort (pq_pop q) @ [pq_top q]) = mset q"
    using pq_top_in[OF assms] by (simp add: pq_pop_def)
  have "\<forall>x \<in> set (pq_pop q). x \<le> pq_top q"
    using pq_top_ge[of _ q] by (metis notin_set_remove1 pq_pop_def)
  thus "sorted (sort (pq_pop q) @ [pq_top q])"
    by (simp add: sorted_append)
qed

lemma drain_frame:
  "drain j base q bufs = Some bufs' \<Longrightarrow> a < base \<or> base + nat j < a \<or> j < 0 \<Longrightarrow>
   fst bufs' a = fst bufs a \<and> snd bufs' a = snd bufs a"
proof (induction j base q bufs rule: drain.induct)
  case (1 j base result bufs)
  show ?case
  proof (cases "0 \<le> j")
    case False
    with "1.prems" show ?thesis by (simp add: drain.simps[of j])
  next
    case True
    with "1.prems"(1) have ne: "result \<noteq> []" by (auto simp: drain.simps[of j] split: if_splits)
    let ?b = "((fst bufs)(base + nat j := snd (pq_top result)),
               (snd bufs)(base + nat j := fst (pq_top result)))"
    from "1.prems"(1) True ne have d: "drain (j - 1) base (pq_pop result) ?b = Some bufs'"
      by (simp add: drain.simps[of j])
    from "1.prems"(2) True have a: "a < base \<or> base + nat j < a" by simp
    hence "a < base \<or> base + nat (j - 1) < a \<or> j - 1 < 0" by auto
    from "1.IH"[OF True ne d this] a show ?thesis by auto
  qed
qed

lemma drain_sorted:
  "length q = n \<Longrightarrow>
   \<exists>bufs'. drain (int n - 1) base q bufs = Some bufs' \<and>
           map (\<lambda>j. (snd bufs' (base + j), fst bufs' (base + j))) [0..<n] = sort q"
proof (induction n arbitrary: q bufs)
  case 0
  then show ?case by (simp add: drain.simps[of "-1"])
next
  case (Suc m)
  hence ne: "q \<noteq> []" by auto
  let ?b = "((fst bufs)(base + m := snd (pq_top q)), (snd bufs)(base + m := fst (pq_top q)))"
  have len: "length (pq_pop q) = m" using Suc.prems ne by (simp add: length_pq_pop)
  from Suc.IH[OF len, of ?b] obtain bufs' where
    d: "drain (int m - 1) base (pq_pop q) ?b = Some bufs'" and
    s: "map (\<lambda>j. (snd bufs' (base + j), fst bufs' (base + j))) [0..<m] = sort (pq_pop q)"
    by blast
  have step: "drain (int (Suc m) - 1) base q bufs = drain (int m - 1) base (pq_pop q) ?b"
    using ne by (simp add: drain.simps[of "int m"])
  have "fst bufs' (base + m) = fst ?b (base + m) \<and> snd bufs' (base + m) = snd ?b (base + m)"
  proof (cases m)
    case 0
    with d show ?thesis by (simp add: drain.simps[of "-1"])
  next
    case (Suc m')
    hence "base + nat (int m - 1) < base + m" by simp
    with drain_frame[OF d, of "base + m"] show ?thesis by blast
  qed
  hence top: "(snd bufs' (base + m), fst bufs' (base + m)) = pq_top q" by simp
  have "map (\<lambda>j. (snd bufs' (base + j), fst bufs' (base + j))) [0..<Suc m] = sort (pq_pop q) @ [pq_top q]"
    using s top by simp
  with sort_pq_pop[OF ne] step d show ?case by simp
qed

lemma int_of_size_t_pred: "k \<le> 2 ^ 31 \<Longrightarrow> int_of_size_t (size_t_pred k) = int k - 1"
proof (cases "k = 0")
  case True
  then show ?thesis by (simp add: int_of_size_t_def size_t_pred_def)
next
  case False
  assume k: "k \<le> 2 ^ 31"
  from False have "k + 2 ^ 64 - 1 = (k - 1) + 2 ^ 64" by simp
  hence "size_t_pred k = ((k - 1) + 2 ^ 64) mod 2 ^ 64" by (simp only: size_t_pred_def)
  also have "\<dots> = (k - 1) mod 2 ^ 64" by (rule mod_add_self2)
  also have "\<dots> = k - 1" using k by (intro mod_less) simp
  finally have "size_t_pred k = k - 1" .
  moreover have "(int (k - 1) + 2 ^ 31) mod 2 ^ 32 = int (k - 1) + 2 ^ 31"
    using k False by (intro mod_pos_pos_trivial) auto
  ultimately show ?thesis using False by (simp add: int_of_size_t_def)
qed

lemma block_other:
  assumes "i' \<noteq> i" "\<forall>a. a < i * k \<or> i * k + k \<le> a \<longrightarrow> fst bufs' a = fst bufs a \<and> snd bufs' a = snd bufs a"
  shows "block bufs' i' k = block bufs i' k"
proof -
  have "i' * k + j < i * k \<or> i * k + k \<le> i' * k + j" if j: "j < k" for j
  proof (cases "i' < i")
    case True
    hence "(i' + 1) * k \<le> i * k" by (intro mult_le_mono1) simp
    with j show ?thesis by simp
  next
    case False
    with assms(1) have "(i + 1) * k \<le> i' * k" by (intro mult_le_mono1) simp
    thus ?thesis by simp
  qed
  hence "fst bufs' (i' * k + j) = fst bufs (i' * k + j) \<and> snd bufs' (i' * k + j) = snd bufs (i' * k + j)"
    if "j < k" for j
    using assms(2) that by blast
  thus ?thesis by (simp add: block_def)
qed

lemma sorted_fst: "sorted (xs :: ('a::linorder \<times> 'b::linorder) list) \<Longrightarrow> sorted (map fst xs)"
  by (induction xs) (auto simp: less_eq_prod_def)


section \<open>Facts about the work functions\<close>

lemma ptr_add_0: "ptr_add p 0 = p"
  by (simp add: ptr_add_def)

lemma add_items_fn_recording:
  "add_items_fn (recording addPoint) ix data d ids rd row t alg = (e, alg') \<Longrightarrow>
   snd (rep alg') = snd (rep alg) @ [handed ix data d ids row]"
  by (auto simp: add_items_fn_def recording_def handed_def Let_def split: prod.splits if_splits)

lemma add_unit_ok:
  fixes addPoint :: "'g HierarchicalNSW \<Rightarrow> real list \<Rightarrow> labeltype \<Rightarrow> bool \<Rightarrow> exn option \<times> 'g HierarchicalNSW"
  shows "unit_ok (\<lambda>D alg. finite D \<and> mset (snd (rep alg)) = mset L + image_mset (handed ix data d ids) (mset_set D))
           (\<lambda>alg. \<exists>rs. snd (rep alg) = L @ map (handed ix data d ids) rs \<and> set rs \<subseteq> {start..<rows})
           start rows (add_items_fn (recording addPoint) ix data d ids rd)"
  unfolding unit_ok_def
proof (intro allI impI conjI)
  fix i t and alg :: "('g \<times> (labeltype \<times> real list) list) HierarchicalNSW"
  assume i: "start \<le> i" "i < rows"
    and P: "\<exists>rs. snd (rep alg) = L @ map (handed ix data d ids) rs \<and> set rs \<subseteq> {start..<rows}"
  let ?f = "add_items_fn (recording addPoint) ix data d ids rd"
  have app: "snd (rep (snd (?f i t alg))) = snd (rep alg) @ [handed ix data d ids i]"
    using add_items_fn_recording[of addPoint ix data d ids rd i t alg] by (cases "?f i t alg") simp
  from P obtain rs where rs: "snd (rep alg) = L @ map (handed ix data d ids) rs" "set rs \<subseteq> {start..<rows}"
    by blast
  have "snd (rep (snd (?f i t alg))) = L @ map (handed ix data d ids) (rs @ [i])"
    using app rs by simp
  moreover have "set (rs @ [i]) \<subseteq> {start..<rows}" using rs i by simp
  ultimately show "\<exists>rs. snd (rep (snd (?f i t alg))) = L @ map (handed ix data d ids) rs \<and>
                         set rs \<subseteq> {start..<rows}" by blast
  fix D
  assume I: "finite D \<and> mset (snd (rep alg)) = mset L + image_mset (handed ix data d ids) (mset_set D)"
    and iD: "i \<notin> D"
  thus "finite (insert i D)" by simp
  show "mset (snd (rep (snd (?f i t alg)))) =
        mset L + image_mset (handed ix data d ids) (mset_set (insert i D))"
    using app I iD by simp
qed

lemma add_first_recording_Inl:
  "add_first (recording addPoint) ix alg data d ids rd = Inl (e, alg') \<Longrightarrow>
   \<not> ep_added ix \<and>
   (snd (rep alg') = snd (rep alg) \<or> snd (rep alg') = snd (rep alg) @ [handed ix data d ids 0])"
  by (auto simp: add_first_def recording_def handed_def ptr_add_0 Let_def
           split: if_splits option.splits prod.splits)

lemma add_first_recording_Inr:
  "add_first (recording addPoint) ix alg data d ids rd = Inr (start, ep, alg') \<Longrightarrow>
   ep \<and> (if ep_added ix then start = 0 \<and> alg' = alg
         else start = 1 \<and> snd (rep alg') = snd (rep alg) @ [handed ix data d ids 0])"
  by (auto simp: add_first_def recording_def handed_def ptr_add_0 Let_def
           split: if_splits option.splits prod.splits)

text \<open>Every completed call of \<^verbatim>\<open>hnswlib_index_add_items\<close>, whatever it returns, has handed to the
  engine the pairs of some rows of the batch and nothing else; on an index without entry point
  the first of them is row 0 and the others are rows from 1 on.\<close>

lemma add_items_shape:
  fixes ix :: "('sp, 'g \<times> (labeltype \<times> real list) list) HNSWIndex"
  assumes run: "hnswlib_index_add_items (recording addPoint) hw sched (Some ix) data rows d ids nt rd
                  = Some (ok, index')"
  shows "\<exists>rs. history index' = history (Some ix) @ map (handed ix data d ids) rs \<and>
              (if ep_added ix then set rs \<subseteq> {0..<rows}
               else (rs = [] \<and> \<not> ok) \<or> (hd rs = 0 \<and> rs \<noteq> [] \<and> set (tl rs) \<subseteq> {1..<rows}))"
proof (cases "appr_alg ix")
  case None
  with run have "index' = Some ix" "\<not> ok" by (auto simp: hnswlib_index_add_items_def)
  thus ?thesis by (auto intro: exI[of _ "[]"])
next
  case (Some alg)
  show ?thesis
  proof (cases "d \<noteq> size_t_of_int (dim ix)")
    case True
    with run Some have "index' = Some ix" "\<not> ok" by (auto simp: hnswlib_index_add_items_def)
    thus ?thesis by (auto intro: exI[of _ "[]"])
  next
    case False
    hence deq: "d = size_t_of_int (dim ix)" by simp
    define threads where "threads = batch_threads (num_threads_default ix) rows nt"
    let ?h = "handed ix data d ids"
    have h0: "history (Some ix) = snd (rep alg)" using Some by (simp add: history_def)
    show ?thesis
    proof (cases "add_first (recording addPoint) ix alg data d ids rd")
      case (Inl a)
      obtain e alg' where a: "a = (e, alg')" by (cases a)
      with run Some deq Inl have r: "ok = False" "index' = Some (ix\<lparr>appr_alg := Some alg'\<rparr>)"
        by (auto simp: hnswlib_index_add_items_def Let_def)
      hence h': "history index' = snd (rep alg')" by (simp add: history_def)
      from add_first_recording_Inl[OF Inl[unfolded a]]
      have ne: "\<not> ep_added ix"
        and c: "snd (rep alg') = snd (rep alg) \<or> snd (rep alg') = snd (rep alg) @ [?h 0]" by auto
      from c show ?thesis
      proof
        assume "snd (rep alg') = snd (rep alg)"
        with h0 h' ne r show ?thesis by (auto intro: exI[of _ "[]"])
      next
        assume "snd (rep alg') = snd (rep alg) @ [?h 0]"
        with h0 h' ne r show ?thesis by (auto intro: exI[of _ "[0]"])
      qed
    next
      case (Inr b)
      obtain start ep alg1 where b: "b = (start, ep, alg1)" by (cases b)
      from add_first_recording_Inr[OF Inr[unfolded b]]
      have first: "if ep_added ix then start = 0 \<and> alg1 = alg
                   else start = 1 \<and> snd (rep alg1) = snd (rep alg) @ [?h 0]" by simp
      have P1: "\<exists>rs. snd (rep alg1) = snd (rep alg1) @ map ?h rs \<and> set rs \<subseteq> {start..<rows}"
        by (auto intro: exI[of _ "[]"])
      have fin: "\<exists>rs. history index' = snd (rep alg1) @ map ?h rs \<and> set rs \<subseteq> {start..<rows}"
      proof (cases "normalize_flag ix \<and> vector_alloc (threads * dim ix) \<noteq> None")
        case True
        with run Some deq Inr b have "index' = Some (ix\<lparr>ep_added := ep, appr_alg := Some alg1\<rparr>)"
          by (auto simp: hnswlib_index_add_items_def Let_def threads_def)
        hence "history index' = snd (rep alg1)" by (simp add: history_def)
        thus ?thesis by (auto intro: exI[of _ "[]"])
      next
        case False
        with run Some deq Inr b obtain e alg2 where
          pf: "ParallelFor hw sched start rows (size_t_of_int threads)
                 (add_items_fn (recording addPoint) ix data d ids rd) alg1 = Some (e, alg2)"
          and h': "history index' = snd (rep alg2)"
          by (auto simp: hnswlib_index_add_items_def Let_def threads_def history_def
                   split: option.splits prod.splits)
        have "unit_ok (\<lambda>D alg. finite D \<and> mset (snd (rep alg)) = mset (snd (rep alg1)) +
                          image_mset ?h (mset_set D))
                (\<lambda>a. \<exists>rs. snd (rep a) = snd (rep alg1) @ map ?h rs \<and> set rs \<subseteq> {start..<rows})
                start rows (add_items_fn (recording addPoint) ix data d ids rd)"
          by (rule add_unit_ok)
        from ParallelFor_inv[OF this P1 _ pf]
        have "\<exists>rs. snd (rep alg2) = snd (rep alg1) @ map ?h rs \<and> set rs \<subseteq> {start..<rows}"
          by simp
        with h' show ?thesis by simp
      qed
      then obtain rs where rs: "history index' = snd (rep alg1) @ map ?h rs" "set rs \<subseteq> {start..<rows}"
        by blast
      show ?thesis
      proof (cases "ep_added ix")
        case True
        with first rs h0 show ?thesis by auto
      next
        case False
        with first have "start = 1" "snd (rep alg1) = snd (rep alg) @ [?h 0]" by auto
        with rs h0 have "history index' = history (Some ix) @ map ?h (0 # rs)" "set rs \<subseteq> {1..<rows}"
          by auto
        with False show ?thesis by (intro exI[of _ "0 # rs"]) simp
      qed
    qed
  qed
qed
text \<open>A call that returns \<^verbatim>\<open>true\<close> has handed every row of the batch to the engine exactly once
  (on a host with at least one hardware thread, and for a batch that is not empty when the index
  has no entry point yet: the block for the first vector does not look at \<^verbatim>\<open>rows\<close>).\<close>

lemma add_items_complete:
  fixes ix :: "('sp, 'g \<times> (labeltype \<times> real list) list) HNSWIndex"
  assumes run: "hnswlib_index_add_items (recording addPoint) hw sched (Some ix) data rows d ids nt rd
                  = Some (True, index')"
    and hw: "0 < hw" and rows: "0 < rows \<or> ep_added ix"
  shows "mset (history index') =
         mset (history (Some ix)) + mset (map (handed ix data d ids) [0..<rows])"
proof -
  let ?h = "handed ix data d ids"
  define threads where "threads = batch_threads (num_threads_default ix) rows nt"
  from run obtain alg where alg: "appr_alg ix = Some alg"
    by (auto simp: hnswlib_index_add_items_def split: option.splits)
  from run alg have deq: "d = size_t_of_int (dim ix)"
    by (auto simp: hnswlib_index_add_items_def split: if_splits)
  from run alg deq obtain start ep alg1 where
    first: "add_first (recording addPoint) ix alg data d ids rd = Inr (start, ep, alg1)"
    by (cases "add_first (recording addPoint) ix alg data d ids rd")
       (auto simp: hnswlib_index_add_items_def Let_def)
  from run alg deq first obtain alg2 where
    pf: "ParallelFor hw sched start rows (size_t_of_int threads)
           (add_items_fn (recording addPoint) ix data d ids rd) alg1 = Some (None, alg2)"
    and h': "history index' = snd (rep alg2)"
    by (auto simp: hnswlib_index_add_items_def Let_def threads_def history_def
             split: option.splits prod.splits if_splits)
  have h0: "history (Some ix) = snd (rep alg)" using alg by (simp add: history_def)
  have ok: "unit_ok (\<lambda>D alg. finite D \<and> mset (snd (rep alg)) = mset (snd (rep alg1)) +
                      image_mset ?h (mset_set D))
            (\<lambda>a. \<exists>rs. snd (rep a) = snd (rep alg1) @ map ?h rs \<and> set rs \<subseteq> {start..<rows})
            start rows (add_items_fn (recording addPoint) ix data d ids rd)"
    by (rule add_unit_ok)
  have P1: "\<exists>rs. snd (rep alg1) = snd (rep alg1) @ map ?h rs \<and> set rs \<subseteq> {start..<rows}"
    by (auto intro: exI[of _ "[]"])
  have I1: "finite {} \<and> mset (snd (rep alg1)) = mset (snd (rep alg1)) + image_mset ?h (mset_set {})"
    by simp
  have "size_t_of_int threads \<noteq> 0 \<or> hw \<noteq> 0" using hw by simp
  from ParallelFor_all_done[OF ok P1 I1 this pf]
  have m: "mset (snd (rep alg2)) = mset (snd (rep alg1)) + image_mset ?h (mset_set {start..<rows})"
    by simp
  from add_first_recording_Inr[OF first]
  have f: "if ep_added ix then start = 0 \<and> alg1 = alg
           else start = 1 \<and> snd (rep alg1) = snd (rep alg) @ [?h 0]" by simp
  show ?thesis
  proof (cases "ep_added ix")
    case True
    with f m h' h0 show ?thesis by (simp add: mset_upt[symmetric] del: mset_upt)
  next
    case False
    with rows have r: "0 < rows" by simp
    hence "[0..<rows] = 0 # [1..<rows]" by (simp add: upt_conv_Cons)
    hence "mset (map ?h [0..<rows]) = add_mset (?h 0) (image_mset ?h (mset_set {1..<rows}))"
      by (simp add: mset_upt[symmetric] del: mset_upt)
    with False f m h' h0 show ?thesis by simp
  qed
qed

lemma add_items_success:
  assumes "hnswlib_index_add_items addPoint hw sched (Some ix) data rows d ids nt rd = Some (True, index')"
  shows "\<exists>ix'. index' = Some ix' \<and> cur_l ix' = cur_l ix + of_nat rows \<and> ep_added ix' \<and>
               appr_alg ix' \<noteq> None \<and> normalize_flag ix' = normalize_flag ix \<and> dim ix' = dim ix \<and>
               num_threads_default ix' = num_threads_default ix \<and> default_ef ix' = default_ef ix \<and>
               space ix' = space ix \<and> space_type ix' = space_type ix"
proof -
  from assms obtain alg where alg: "appr_alg ix = Some alg"
    by (auto simp: hnswlib_index_add_items_def split: option.splits)
  from assms alg have deq: "d = size_t_of_int (dim ix)"
    by (auto simp: hnswlib_index_add_items_def split: if_splits)
  from assms alg deq obtain start ep alg1 where
    first: "add_first addPoint ix alg data d ids rd = Inr (start, ep, alg1)"
    by (cases "add_first addPoint ix alg data d ids rd")
       (auto simp: hnswlib_index_add_items_def Let_def)
  hence ep: "ep" by (auto simp: add_first_def Let_def split: if_splits option.splits prod.splits)
  from assms alg deq first ep show ?thesis
    by (auto simp: hnswlib_index_add_items_def Let_def split: option.splits prod.splits if_splits)
qed

lemma bf_add_items_success:
  assumes "hnswlib_bf_index_add_items addPoint (Some ix) data rows d ids = (True, index')"
  shows "\<exists>ix'. index' = Some ix' \<and> bf_cur_l ix' = bf_cur_l ix + of_nat rows \<and>
               bf_normalize_flag ix' = bf_normalize_flag ix \<and> bf_dim ix' = bf_dim ix"
  using assms
  by (auto simp: hnswlib_bf_index_add_items_def split: option.splits prod.splits if_splits)

section \<open>Facts about the search\<close>

lemma int_of_size_t_less: "int_of_size_t n < 2 ^ 31"
proof -
  have "(int n + 2 ^ 31) mod 2 ^ 32 < 2 ^ 32" by simp
  thus ?thesis by (simp add: int_of_size_t_def)
qed

lemma drain_counter_less: "int_of_size_t (size_t_pred k) < int k \<or> k = 0"
proof (cases "k \<le> 2 ^ 31")
  case True
  then show ?thesis using int_of_size_t_pred[OF True] by simp
next
  case False
  hence "(2::nat) ^ 31 < k" by simp
  hence "int ((2::nat) ^ 31) < int k" by (rule iffD2[OF of_nat_less_iff])
  hence "(2::int) ^ 31 < int k" by simp
  with int_of_size_t_less[of "size_t_pred k"] show ?thesis by simp
qed

lemma drain_defined:
  "j < int (length q) \<Longrightarrow> \<exists>bufs'. drain j base q bufs = Some bufs'"
proof (induction j base q bufs rule: drain.induct)
  case (1 j base result bufs)
  show ?case
  proof (cases "0 \<le> j")
    case False
    then show ?thesis by (simp add: drain.simps[of j])
  next
    case True
    with "1.prems" have ne: "result \<noteq> []" by auto
    have "j - 1 < int (length (pq_pop result))"
      using "1.prems" ne by (simp add: length_pq_pop)
    from "1.IH"[OF True ne this] True ne show ?thesis by (simp add: drain.simps[of j])
  qed
qed

lemma int_of_size_t_pred_0: "int_of_size_t (size_t_pred 0) = - 1"
  by (simp add: int_of_size_t_def size_t_pred_def)

lemma drain_block_defined:
  "length r = k \<Longrightarrow> \<exists>bufs'. drain (int_of_size_t (size_t_pred k)) base r bufs = Some bufs'"
proof (cases "k = 0")
  case True
  then show ?thesis by (simp add: int_of_size_t_pred_0 drain.simps[of "- 1"])
next
  case False
  assume "length r = k"
  with drain_counter_less[of k] False have "int_of_size_t (size_t_pred k) < int (length r)" by simp
  thus ?thesis by (rule drain_defined)
qed

lemma drain_block:
  assumes k: "k \<le> 2 ^ 31" and d: "drain (int_of_size_t (size_t_pred k)) (i * k) r bufs = Some bufs'"
  shows "(\<forall>i'. i' \<noteq> i \<longrightarrow> block bufs' i' k = block bufs i' k) \<and>
         (length r = k \<longrightarrow> block bufs' i k = sort r)"
proof -
  from d have d': "drain (int k - 1) (i * k) r bufs = Some bufs'"
    by (simp add: int_of_size_t_pred[OF k])
  have fr: "\<forall>a. a < i * k \<or> i * k + k \<le> a \<longrightarrow> fst bufs' a = fst bufs a \<and> snd bufs' a = snd bufs a"
  proof (intro allI impI)
    fix a assume a: "a < i * k \<or> i * k + k \<le> a"
    hence "a < i * k \<or> i * k + nat (int k - 1) < a \<or> int k - 1 < 0" by (cases "k = 0") auto
    from drain_frame[OF d' this] show "fst bufs' a = fst bufs a \<and> snd bufs' a = snd bufs a" .
  qed
  have "block bufs' i k = sort r" if "length r = k"
  proof -
    from drain_sorted[OF that, of "i * k" bufs] d' show ?thesis by (simp add: block_def)
  qed
  with block_other[OF _ fr] show ?thesis by blast
qed

text \<open>The work function of the search: what a unit that returns leaves in its block, and that
  it leaves the other blocks alone.\<close>

lemma search_knn_fn_cases:
  "search_knn_fn searchKnn ix alg query k i t (Some bufs) = (e, out) \<Longrightarrow>
   (e \<noteq> None \<and> out = Some bufs \<and>
      (\<forall>r. searchKnn alg (search_query ix query i) k = Inr r \<longrightarrow> length r \<noteq> k)) \<or>
   (e = None \<and> (\<exists>r. searchKnn alg (search_query ix query i) k = Inr r \<and> length r = k \<and>
                     out = drain (int_of_size_t (size_t_pred k)) (i * k) r bufs))"
  by (auto simp: search_knn_fn_def search_query_def Let_def split: sum.splits if_splits)

lemma search_unit_ok:
  assumes k: "k \<le> 2 ^ 31"
  shows "unit_ok (\<lambda>D out. \<forall>i \<in> D. \<exists>bufs r. out = Some bufs \<and>
                     searchKnn alg (search_query ix query i) k = Inr r \<and> length r = k \<and>
                     block bufs i k = sort r)
                 (\<lambda>out. out \<noteq> None) 0 n (search_knn_fn searchKnn ix alg query k)"
  unfolding unit_ok_def
proof (intro allI impI conjI)
  fix i t and out :: "(labeltype buffer \<times> real buffer) option"
  assume P: "out \<noteq> None"
  then obtain bufs where out: "out = Some bufs" by auto
  obtain e out' where f: "search_knn_fn searchKnn ix alg query k i t (Some bufs) = (e, out')"
    by (cases "search_knn_fn searchKnn ix alg query k i t (Some bufs)")
  from search_knn_fn_cases[OF f] drain_block_defined
  show "snd (search_knn_fn searchKnn ix alg query k i t out) \<noteq> None"
    unfolding out f by (metis option.distinct(1) snd_conv)
  fix D
  assume I: "\<forall>i \<in> D. \<exists>bufs r. out = Some bufs \<and>
                     searchKnn alg (search_query ix query i) k = Inr r \<and> length r = k \<and>
                     block bufs i k = sort r"
    and iD: "i \<notin> D" and e: "fst (search_knn_fn searchKnn ix alg query k i t out) = None"
  from e have "e = None" by (simp add: out f)
  with search_knn_fn_cases[OF f] obtain r where
    r: "searchKnn alg (search_query ix query i) k = Inr r" "length r = k"
       "out' = drain (int_of_size_t (size_t_pred k)) (i * k) r bufs" by auto
  from drain_block_defined[OF r(2), of "i * k" bufs] r(3) obtain bufs' where
    b': "out' = Some bufs'" "drain (int_of_size_t (size_t_pred k)) (i * k) r bufs = Some bufs'" by auto
  from drain_block[OF k b'(2)] r(2)
  have other: "\<forall>i'. i' \<noteq> i \<longrightarrow> block bufs' i' k = block bufs i' k" and this_one: "block bufs' i k = sort r"
    by auto
  show "\<forall>i' \<in> insert i D. \<exists>bufs r. snd (search_knn_fn searchKnn ix alg query k i t out) = Some bufs \<and>
                     searchKnn alg (search_query ix query i') k = Inr r \<and> length r = k \<and>
                     block bufs i' k = sort r"
  proof
    fix i' assume i': "i' \<in> insert i D"
    show "\<exists>bufs r. snd (search_knn_fn searchKnn ix alg query k i t out) = Some bufs \<and>
                     searchKnn alg (search_query ix query i') k = Inr r \<and> length r = k \<and>
                     block bufs i' k = sort r"
    proof (cases "i' = i")
      case True
      with r this_one b' show ?thesis by (simp add: out f)
    next
      case False
      with i' have "i' \<in> D" by simp
      with I out obtain r' where "searchKnn alg (search_query ix query i') k = Inr r'" "length r' = k"
        "block bufs i' k = sort r'" by auto
      with other False b' show ?thesis by (simp add: out f)
    qed
  qed
qed

lemma search_knn_result:
  assumes run: "hnswlib_index_search_knn searchKnn hw sched (Some ix) query k result_labels
                  result_distances query_count num_threads = Some (True, bufs)"
    and alg: "appr_alg ix = Some alg" and k: "k \<le> 2 ^ 31" and hw: "0 < hw"
    and i: "i < query_count"
  shows "\<exists>r. searchKnn alg (search_query ix query i) k = Inr r \<and> length r = k \<and>
             block bufs i k = sort r"
proof -
  define threads where "threads = batch_threads (num_threads_default ix) query_count num_threads"
  from run alg have
    pf: "ParallelFor hw sched 0 query_count (size_t_of_int threads)
           (search_knn_fn searchKnn ix alg query k) (Some (result_labels, result_distances))
         = Some (None, Some bufs)"
    by (auto simp: hnswlib_index_search_knn_def Let_def threads_def
             split: option.splits prod.splits if_splits)
  have "size_t_of_int threads \<noteq> 0 \<or> hw \<noteq> 0" using hw by simp
  from ParallelFor_all_done[OF search_unit_ok[OF k] _ _ this pf] i
  show ?thesis by fastforce
qed

lemma search_knn_keeps_defined:
  "start \<le> i \<Longrightarrow> i < n \<Longrightarrow> out \<noteq> None \<Longrightarrow>
   snd (search_knn_fn searchKnn ix alg query k i t out) \<noteq> None"
proof -
  assume "out \<noteq> None"
  then obtain bufs where out: "out = Some bufs" by auto
  obtain e out' where f: "search_knn_fn searchKnn ix alg query k i t (Some bufs) = (e, out')"
    by (cases "search_knn_fn searchKnn ix alg query k i t (Some bufs)")
  from search_knn_fn_cases[OF f] drain_block_defined
  show ?thesis unfolding out f by (metis option.distinct(1) snd_conv)
qed

lemma search_knn_short:
  assumes run: "hnswlib_index_search_knn searchKnn hw sched (Some ix) query k result_labels
                  result_distances query_count num_threads = Some (ok, bufs)"
    and alg: "appr_alg ix = Some alg" and hw: "0 < hw" and i: "i < query_count"
    and short: "searchKnn alg (search_query ix query i) k = Inr r" "length r \<noteq> k"
  shows "\<not> ok"
proof
  assume ok
  define threads where "threads = batch_threads (num_threads_default ix) query_count num_threads"
  let ?fn = "search_knn_fn searchKnn ix alg query k"
  from run alg \<open>ok\<close> have
    pf: "ParallelFor hw sched 0 query_count (size_t_of_int threads) ?fn
           (Some (result_labels, result_distances)) = Some (None, Some bufs)"
    by (auto simp: hnswlib_index_search_knn_def Let_def threads_def
             split: option.splits prod.splits if_splits)
  have u: "unit_ok (\<lambda>D out. i \<notin> D) (\<lambda>out. out \<noteq> None) 0 query_count ?fn"
    unfolding unit_ok_def
  proof (intro allI impI conjI)
    fix j t and out :: "(labeltype buffer \<times> real buffer) option"
    assume j: "0 \<le> j" "j < query_count" and P: "out \<noteq> None"
    from search_knn_keeps_defined[OF j P] show "snd (?fn j t out) \<noteq> None" .
    fix D
    assume "i \<notin> D" and e: "fst (?fn j t out) = None"
    from P obtain b where out: "out = Some b" by auto
    obtain e' out' where f: "?fn j t (Some b) = (e', out')" by (cases "?fn j t (Some b)")
    from e have "e' = None" by (simp add: out f)
    with search_knn_fn_cases[OF f] short have "j \<noteq> i" by auto
    with \<open>i \<notin> D\<close> show "i \<notin> insert j D" by simp
  qed
  have "size_t_of_int threads \<noteq> 0 \<or> hw \<noteq> 0" using hw by simp
  from ParallelFor_all_done[OF u _ _ this pf] i show False by simp
qed

lemma search_knn_returns:
  assumes alg: "appr_alg ix = Some alg"
    and len: "2 * query_count + hw +
              size_t_of_int (batch_threads (num_threads_default ix) query_count num_threads)
              \<le> length sched"
  shows "\<exists>ok bufs. hnswlib_index_search_knn searchKnn hw sched (Some ix) query k result_labels
                      result_distances query_count num_threads = Some (ok, bufs)"
proof -
  define threads where "threads = batch_threads (num_threads_default ix) query_count num_threads"
  let ?fn = "search_knn_fn searchKnn ix alg query k"
  let ?s = "Some (result_labels, result_distances)"
  show ?thesis
  proof (cases "normalize_flag ix \<and> vector_alloc (threads * dim ix) \<noteq> None")
    case True
    with alg have "hnswlib_index_search_knn searchKnn hw sched (Some ix) query k result_labels
                      result_distances query_count num_threads
                   = Some (False, result_labels, result_distances)"
      by (simp add: hnswlib_index_search_knn_def Let_def threads_def)
    thus ?thesis by blast
  next
    case False
    have "2 * (query_count - 0) + (if size_t_of_int threads = 0 then hw else size_t_of_int threads)
          \<le> length sched"
      using len by (simp add: threads_def)
    from ParallelFor_terminates[OF this, of ?fn ?s] obtain e out where
      pf: "ParallelFor hw sched 0 query_count (size_t_of_int threads) ?fn ?s = Some (e, out)"
      by auto
    have "out \<noteq> None"
    proof (rule ParallelFor_keeps[where P = "\<lambda>out. out \<noteq> None", OF _ _ pf])
      show "snd (?fn i t s) \<noteq> None" if "0 \<le> i" "i < query_count" "s \<noteq> None" for i t s
        using search_knn_keeps_defined[OF that] .
    qed simp
    then obtain b where "out = Some b" by auto
    with pf alg False
    have "hnswlib_index_search_knn searchKnn hw sched (Some ix) query k result_labels
            result_distances query_count num_threads = Some (e = None, b)"
      by (cases e) (auto simp: hnswlib_index_search_knn_def Let_def threads_def)
    thus ?thesis by blast
  qed
qed

lemma Spec_searchKnn_live:
  "Spec_searchKnn reached distance alg q k = Inr r \<Longrightarrow> p \<in> set r \<Longrightarrow> live alg (snd p)"
proof -
  assume r: "Spec_searchKnn reached distance alg q k = Inr r" and p: "p \<in> set r"
  from r p have "p \<in> set (map (\<lambda>n. (distance q (node_vector n), node_label n))
                         (filter (\<lambda>n. reached (ef_member alg) q n \<and> \<not> tombstone n) (rep alg)))"
    by (auto simp: Spec_searchKnn_def dest!: in_set_takeD)
  then obtain n where "n \<in> set (rep alg)" "\<not> tombstone n" "snd p = node_label n" by auto
  hence "\<exists>n \<in> set (rep alg). node_label n = snd p \<and> \<not> tombstone n" by (intro bexI[of _ n]) simp_all
  thus ?thesis by (simp add: live_def)
qed

section \<open>Facts about the brute-force index\<close>







lemma bf_add_items_loop_end:
  "rows \<le> row \<Longrightarrow> bf_add_items_loop addPoint bx data d ids row rows alg = (None, alg)"
  by (simp add: bf_add_items_loop.simps[of _ _ _ _ _ row])

lemma bf_add_items_loop_unfold:
  "row < rows \<Longrightarrow>
   bf_add_items_loop addPoint bx data d ids row rows alg =
     (case bf_add_items_body addPoint bx data d ids row alg of
        (Some e, alg') \<Rightarrow> (Some e, alg')
      | (None, alg') \<Rightarrow> bf_add_items_loop addPoint bx data d ids (row + 1) rows alg')"
  by (simp add: bf_add_items_loop.simps[of _ _ _ _ _ row])

section \<open>The concrete instances, evaluated\<close>

lemma size_t_of_int_small: "size_t_of_int 1 = 1" "size_t_of_int 2 = 2" "size_t_of_int 8 = 8"
  by (simp_all add: size_t_of_int_def)

lemma replicate_8: "replicate 8 x = [x, x, x, x, x, x, x, x]"
  by (simp add: eval_nat_numeral)

lemma add_items_fn_labelled:
  "add_items_fn (recording accept_all) empty_index ramp 1 (Some (\<lambda>i. 1000 + of_nat i)) False row t
     \<lparr>ef_member = e, rep = ((), h)\<rparr>
   = (None, \<lparr>ef_member = e, rep = ((), h @ [(1000 + of_nat row, [real row])])\<rparr>)"
  by (simp add: add_items_fn_def recording_def accept_all_def empty_index_def floats_def
        ptr_add_def ramp_def)

lemma add_first_labelled:
  "add_first (recording accept_all) empty_index \<lparr>ef_member = 10, rep = ((), [])\<rparr> ramp 1
     (Some (\<lambda>i. 1000 + of_nat i)) False
   = Inr (1, True, \<lparr>ef_member = 10, rep = ((), [(1000, [0])])\<rparr>)"
  by (simp add: add_first_def recording_def accept_all_def empty_index_def floats_def
        ramp_def vector_alloc_def)

lemma labelled_batch_sequential:
  "labelled_batch 1 [] =
     Some (True, Some (empty_index\<lparr>ep_added := True, cur_l := 9,
        appr_alg := Some \<lparr>ef_member = 10, rep = ((), [(1000, [0]), (1001, [1]), (1002, [2]),
          (1003, [3]), (1004, [4]), (1005, [5]), (1006, [6]), (1007, [7]), (1008, [8])])\<rparr>\<rparr>))"
proof -
  have t: "batch_threads 8 9 1 = 1" by (simp add: batch_threads_def size_t_of_int_def)
  have a: "appr_alg empty_index = Some \<lparr>ef_member = 10, rep = ((), [])\<rparr>"
    "dim empty_index = 1" "num_threads_default empty_index = 8" "\<not> normalize_flag empty_index"
    "cur_l empty_index = 0"
    by (simp_all add: empty_index_def)
  have p: "ParallelFor 8 [] 1 9 1
     (add_items_fn (recording accept_all) empty_index ramp 1 (Some (\<lambda>i. 1000 + of_nat i)) False)
     \<lparr>ef_member = 10, rep = ((), [(1000, [0])])\<rparr>
   = Some (None, \<lparr>ef_member = 10, rep = ((), [(1000, [0]), (1001, [1]), (1002, [2]),
          (1003, [3]), (1004, [4]), (1005, [5]), (1006, [6]), (1007, [7]), (1008, [8])])\<rparr>)"
    by (simp add: ParallelFor_def ParallelFor_loop_unfold ParallelFor_loop_end
          add_items_fn_labelled del: One_nat_def)
  show ?thesis
    unfolding labelled_batch_def hnswlib_index_add_items_def
    by (simp add: a t add_first_labelled p size_t_of_int_small del: One_nat_def)
qed

lemma labelled_batch_parallel:
  "labelled_batch 2 second_first =
     Some (True, Some (empty_index\<lparr>ep_added := True, cur_l := 9,
        appr_alg := Some \<lparr>ef_member = 10, rep = ((), [(1000, [0]), (1002, [2]), (1001, [1]),
          (1004, [4]), (1003, [3]), (1006, [6]), (1005, [5]), (1008, [8]), (1007, [7])])\<rparr>\<rparr>))"
proof -
  have t: "batch_threads 8 9 2 = 2" by (simp add: batch_threads_def size_t_of_int_def)
  have a: "appr_alg empty_index = Some \<lparr>ef_member = 10, rep = ((), [])\<rparr>"
    "dim empty_index = 1" "num_threads_default empty_index = 8" "\<not> normalize_flag empty_index"
    "cur_l empty_index = 0"
    by (simp_all add: empty_index_def)
  have p: "ParallelFor 8 second_first 1 9 2
     (add_items_fn (recording accept_all) empty_index ramp 1 (Some (\<lambda>i. 1000 + of_nat i)) False)
     \<lparr>ef_member = 10, rep = ((), [(1000, [0])])\<rparr>
   = Some (None, \<lparr>ef_member = 10, rep = ((), [(1000, [0]), (1002, [2]), (1001, [1]), (1004, [4]),
        (1003, [3]), (1006, [6]), (1005, [5]), (1008, [8]), (1007, [7])])\<rparr>)"
    by (simp add: ParallelFor_def spawn_def second_first_def joined_def enabled_def pick_def
          worker_step_def add_items_fn_labelled upt_rec_numeral numeral_2_eq_2 del: One_nat_def)
  show ?thesis
    unfolding labelled_batch_def hnswlib_index_add_items_def
    by (simp add: a t add_first_labelled p size_t_of_int_small del: One_nat_def)
qed

lemma handed_labelled:
  "handed empty_index ramp 1 (Some (\<lambda>i. 1000 + of_nat i)) row = (1000 + of_nat row, [real row])"
  by (simp add: handed_def empty_index_def floats_def ptr_add_def ramp_def)

lemma history_empty_index: "history (Some empty_index) = []"
  by (simp add: history_def empty_index_def)

section \<open>Facts about single-precision rounding\<close>

lemma round_even_error: "\<bar>of_int (round_even q) - q\<bar> \<le> 1 / 2"
  unfolding round_even_def Let_def by (auto; linarith)

lemma round_even_int: "round_even (of_int n) = n"
  by (simp add: round_even_def)

lemma round_even_floor: "\<lfloor>q\<rfloor> \<le> round_even q \<and> round_even q \<le> \<lfloor>q\<rfloor> + 1"
  by (simp add: round_even_def Let_def)

lemma round_even_ge:
  assumes "of_int n \<le> q"
  shows "n \<le> round_even q"
proof -
  from assms have "n \<le> \<lfloor>q\<rfloor>" by (simp add: le_floor_iff)
  with round_even_floor[of q] show ?thesis by linarith
qed

lemma round_even_le:
  assumes "q \<le> of_int n"
  shows "round_even q \<le> n"
proof (cases "q = of_int n")
  case True
  thus ?thesis by (simp add: round_even_int)
next
  case False
  with assms have "q < of_int n" by simp
  hence "\<lfloor>q\<rfloor> < n" by (simp add: floor_less_iff)
  with round_even_floor[of q] show ?thesis by simp
qed

lemma round_even_mono:
  assumes "q \<le> q'"
  shows "round_even q \<le> round_even q'"
proof (cases "\<lfloor>q\<rfloor> = \<lfloor>q'\<rfloor>")
  case True
  with assms show ?thesis by (auto simp: round_even_def Let_def)
next
  case False
  with assms have "\<lfloor>q\<rfloor> < \<lfloor>q'\<rfloor>" using floor_mono[OF assms] by simp
  hence "\<lfloor>q\<rfloor> + 1 \<le> \<lfloor>q'\<rfloor>" by simp
  with round_even_floor[of q] round_even_floor[of q'] show ?thesis by linarith
qed

lemma above_inverse_power: "1 / 2 ^ k \<le> x \<Longrightarrow> 0 < (x::real)"
proof -
  assume "1 / 2 ^ k \<le> x"
  moreover have "(0::real) < 1 / 2 ^ k" by simp
  ultimately show ?thesis by linarith
qed


lemma p2_pos: "0 < (2 powr of_int e :: real)"
  by simp

lemma p2_add: "(2 powr of_int (a + b) :: real) = 2 powr of_int a * 2 powr of_int b"
  by (simp add: powr_add)

lemma p2_mono: "a \<le> b \<Longrightarrow> (2 powr of_int a :: real) \<le> 2 powr of_int b"
  by simp



lemma p2_neg: "(2 powr of_int (- int n) :: real) = 1 / 2 ^ n"
  by (simp add: powr_minus powr_realpow divide_inverse)

lemma binade_ge: "- 126 \<le> binade x"
  by (simp add: binade_def)

lemma binade_eq:
  assumes "2 powr of_int e \<le> \<bar>x\<bar>" "\<bar>x\<bar> < 2 powr of_int (e + 1)" "- 126 \<le> e"
  shows "binade x = e"
proof -
  from assms(1) p2_pos[of e] have nz: "x \<noteq> 0" "0 < \<bar>x\<bar>" by auto
  from assms(1) nz have "of_int e \<le> log 2 \<bar>x\<bar>" by (simp add: le_log_iff)
  moreover from assms(2) nz have "log 2 \<bar>x\<bar> < of_int e + 1" by (simp add: log_less_iff)
  ultimately have "\<lfloor>log 2 \<bar>x\<bar>\<rfloor> = e" by (simp add: floor_unique)
  with nz assms(3) show ?thesis by (simp add: binade_def)
qed

lemma binade_small:
  assumes "\<bar>x\<bar> < 2 powr of_int (- 126)"
  shows "binade x = - 126"
proof (cases "x = 0")
  case True
  thus ?thesis by (simp add: binade_def)
next
  case False
  hence "0 < \<bar>x\<bar>" by simp
  with assms have "log 2 \<bar>x\<bar> < of_int (- 126)" by (simp add: log_less_iff)
  hence "\<lfloor>log 2 \<bar>x\<bar>\<rfloor> < - 126" by (simp add: floor_less_iff)
  with False show ?thesis by (simp add: binade_def)
qed

lemma binade_upper: "\<bar>x\<bar> < 2 powr of_int (binade x + 1)"
proof (cases "x = 0")
  case True
  thus ?thesis by simp
next
  case False
  hence pos: "0 < \<bar>x\<bar>" by simp
  have "log 2 \<bar>x\<bar> < of_int (\<lfloor>log 2 \<bar>x\<bar>\<rfloor> + 1)" by linarith
  also have "\<dots> \<le> of_int (binade x + 1)" using False by (simp add: binade_def)
  finally have "log 2 \<bar>x\<bar> < of_int (binade x + 1)" .
  with pos show ?thesis by (simp add: log_less_iff)
qed

lemma binade_lower:
  assumes "2 powr of_int (- 126) \<le> \<bar>x\<bar>"
  shows "2 powr of_int (binade x) \<le> \<bar>x\<bar>"
proof -
  from assms p2_pos[of "- 126"] have nz: "x \<noteq> 0" "0 < \<bar>x\<bar>" by auto
  from assms nz have "of_int (- 126) \<le> log 2 \<bar>x\<bar>" by (simp add: le_log_iff)
  hence "- 126 \<le> \<lfloor>log 2 \<bar>x\<bar>\<rfloor>" by (simp add: le_floor_iff)
  with nz have b: "binade x = \<lfloor>log 2 \<bar>x\<bar>\<rfloor>" by (simp add: binade_def)
  have "of_int (binade x) \<le> log 2 \<bar>x\<bar>" unfolding b by simp
  with nz show ?thesis by (simp add: le_log_iff)
qed

lemma binade_mono:
  assumes "\<bar>x\<bar> \<le> \<bar>y\<bar>"
  shows "binade x \<le> binade y"
proof (cases "\<bar>x\<bar> < 2 powr of_int (- 126)")
  case True
  thus ?thesis using binade_small[OF True] binade_ge[of y] by simp
next
  case False
  hence n: "2 powr of_int (- 126) \<le> \<bar>x\<bar>" by simp
  from binade_lower[OF n] assms binade_upper[of y]
  have "(2 powr of_int (binade x) :: real) < 2 powr of_int (binade y + 1)" by linarith
  thus ?thesis by simp
qed

lemma ulp32_pos: "0 < ulp32 x"
  by (simp add: ulp32_def)
lemma ulp32_binade: "ulp32 x = 2 powr of_int (binade x) / 2 ^ 23"
  by (simp add: ulp32_def powr_diff)

lemma ulp32_next: "2 powr of_int (binade x + 1) = 2 ^ 24 * ulp32 x"
  by (simp add: ulp32_binade powr_add)

lemma nearest32_error: "\<bar>nearest32 x - x\<bar> \<le> ulp32 x / 2"
proof -
  let ?U = "ulp32 x"
  have U: "0 < ?U" by (rule ulp32_pos)
  have "nearest32 x - x = (of_int (round_even (x / ?U)) - x / ?U) * ?U"
    using U by (simp add: nearest32_def algebra_simps)
  hence "\<bar>nearest32 x - x\<bar> = \<bar>of_int (round_even (x / ?U)) - x / ?U\<bar> * ?U"
    using U by (simp add: abs_mult)
  also have "\<dots> \<le> 1 / 2 * ?U"
    using round_even_error[of "x / ?U"] U by (intro mult_right_mono) simp_all
  finally show ?thesis by simp
qed

text \<open>In the normal range rounding changes a number by at most the fraction \<open>2\<^sup>-\<^sup>2\<^sup>4\<close> of it.\<close>

lemma nearest32_rel:
  assumes "2 powr of_int (- 126) \<le> \<bar>x\<bar>"
  shows "\<bar>nearest32 x - x\<bar> \<le> \<bar>x\<bar> / 2 ^ 24"
proof -
  have "\<bar>nearest32 x - x\<bar> \<le> ulp32 x / 2" by (rule nearest32_error)
  also have "\<dots> = 2 powr of_int (binade x) / 2 ^ 24" by (simp add: ulp32_binade)
  also have "\<dots> \<le> \<bar>x\<bar> / 2 ^ 24" using binade_lower[OF assms] by (simp add: divide_right_mono)
  finally show ?thesis .
qed

lemma nearest32_0: "nearest32 0 = 0"
  by (simp add: nearest32_def round_even_def)

lemma nearest32_nonneg:
  assumes "0 \<le> x"
  shows "0 \<le> nearest32 x"
proof -
  from assms ulp32_pos[of x] have "of_int 0 \<le> x / ulp32 x" by simp
  from round_even_ge[OF this] ulp32_pos[of x] show ?thesis by (simp add: nearest32_def)
qed

lemma nearest32_upper:
  assumes "0 \<le> x"
  shows "nearest32 x \<le> 2 powr of_int (binade x + 1)"
proof -
  let ?U = "ulp32 x"
  have U: "0 < ?U" by (rule ulp32_pos)
  from binade_upper[of x, unfolded ulp32_next] assms have "x < 2 ^ 24 * ?U" by simp
  hence "x / ?U \<le> of_int (2 ^ 24)" using U by (simp add: pos_divide_le_eq)
  from round_even_le[OF this] have "of_int (round_even (x / ?U)) \<le> (2 ^ 24 :: real)"
    by (metis of_int_le_iff of_int_numeral of_int_power)
  hence "of_int (round_even (x / ?U)) * ?U \<le> 2 ^ 24 * ?U" using U by (intro mult_right_mono) simp_all
  thus ?thesis by (simp only: nearest32_def ulp32_next)
qed

lemma nearest32_lower:
  assumes "2 powr of_int (- 126) \<le> x"
  shows "2 powr of_int (binade x) \<le> nearest32 x"
proof -
  let ?U = "ulp32 x"
  have U: "0 < ?U" by (rule ulp32_pos)
  from assms p2_pos[of "- 126"] have pos: "0 < x" by linarith
  with assms have "2 powr of_int (- 126) \<le> \<bar>x\<bar>" by simp
  from binade_lower[OF this] pos have "2 ^ 23 * ?U \<le> x" by (simp add: ulp32_binade)
  hence "of_int (2 ^ 23) \<le> x / ?U" using U by (simp add: pos_le_divide_eq)
  from round_even_ge[OF this] have "(2 ^ 23 :: real) \<le> of_int (round_even (x / ?U))"
    by (metis of_int_le_iff of_int_numeral of_int_power)
  hence "2 ^ 23 * ?U \<le> of_int (round_even (x / ?U)) * ?U" using U by (intro mult_right_mono) simp_all
  thus ?thesis by (simp add: nearest32_def ulp32_binade)
qed

text \<open>Rounding is monotone.\<close>

lemma nearest32_mono:
  assumes "0 \<le> x" "x \<le> y"
  shows "nearest32 x \<le> nearest32 y"
proof -
  from assms have "\<bar>x\<bar> \<le> \<bar>y\<bar>" by simp
  from binade_mono[OF this] have b: "binade x \<le> binade y" .
  show ?thesis
  proof (cases "binade x = binade y")
    case True
    hence U: "ulp32 y = ulp32 x" by (simp add: ulp32_def)
    from assms ulp32_pos[of x] have "x / ulp32 x \<le> y / ulp32 x" by (simp add: divide_right_mono)
    from round_even_mono[OF this] ulp32_pos[of x] show ?thesis
      by (simp add: nearest32_def U)
  next
    case False
    with b have lt: "binade x + 1 \<le> binade y" by simp
    with binade_ge[of x] have "binade y \<noteq> - 126" by simp
    hence "\<not> \<bar>y\<bar> < 2 powr of_int (- 126)" using binade_small[of y] by blast
    with assms have "2 powr of_int (- 126) \<le> y" by simp
    from nearest32_lower[OF this] have "2 powr of_int (binade y) \<le> nearest32 y" .
    moreover from nearest32_upper[OF assms(1)] have "nearest32 x \<le> 2 powr of_int (binade x + 1)" .
    moreover from p2_mono[OF lt] have "(2 powr of_int (binade x + 1) :: real) \<le> 2 powr of_int (binade y)" .
    ultimately show ?thesis by linarith
  qed
qed

text \<open>A rounded number is a float: rounding it again gives it back.\<close>

lemma nearest32_idem:
  assumes "0 \<le> x"
  shows "nearest32 (nearest32 x) = nearest32 x"
proof -
  let ?U = "ulp32 x"
  let ?n = "round_even (x / ?U)"
  let ?y = "nearest32 x"
  have U: "0 < ?U" by (rule ulp32_pos)
  have y: "?y = of_int ?n * ?U" by (simp add: nearest32_def)
  have y0: "0 \<le> ?y" by (rule nearest32_nonneg[OF assms])
  have up: "?y \<le> 2 powr of_int (binade x + 1)" by (rule nearest32_upper[OF assms])
  have "\<exists>m. ?y = of_int m * ulp32 ?y"
  proof (cases "?y = 2 powr of_int (binade x + 1)")
    case True
    have "binade ?y = binade x + 1"
    proof (rule binade_eq)
      show "2 powr of_int (binade x + 1) \<le> \<bar>?y\<bar>" using True by simp
      have "(2 powr of_int (binade x + 1) :: real) < 2 powr of_int (binade x + 1 + 1)" by simp
      thus "\<bar>?y\<bar> < 2 powr of_int (binade x + 1 + 1)" using True by simp
      show "- 126 \<le> binade x + 1" using binade_ge[of x] by simp
    qed
    hence "ulp32 ?y = 2 powr of_int (binade x + 1) / 2 ^ 23" by (simp add: ulp32_binade)
    hence "?y = of_int (2 ^ 23) * ulp32 ?y" using True by simp
    thus ?thesis by blast
  next
    case False
    with up have lt: "?y < 2 powr of_int (binade x + 1)" by simp
    have "binade ?y = binade x"
    proof (cases "?y < 2 powr of_int (- 126)")
      case True
      hence s: "binade ?y = - 126" using y0 binade_small[of ?y] by simp
      have "\<not> 2 powr of_int (- 126) \<le> x"
      proof
        assume n: "2 powr of_int (- 126) \<le> x"
        from nearest32_lower[OF n] have "2 powr of_int (binade x) \<le> ?y" .
        moreover from binade_ge[of x] have "(2 powr of_int (- 126) :: real) \<le> 2 powr of_int (binade x)"
          by (intro p2_mono)
        ultimately show False using True by linarith
      qed
      with assms have "\<bar>x\<bar> < 2 powr of_int (- 126)" by simp
      from binade_small[OF this] s show ?thesis by simp
    next
      case False
      hence ge: "2 powr of_int (- 126) \<le> ?y" by simp
      show ?thesis
      proof (rule binade_eq)
        show "\<bar>?y\<bar> < 2 powr of_int (binade x + 1)" using lt y0 by simp
        show "- 126 \<le> binade x" by (rule binade_ge)
        show "2 powr of_int (binade x) \<le> \<bar>?y\<bar>"
        proof (cases "2 powr of_int (- 126) \<le> x")
          case True
          from nearest32_lower[OF True] y0 show ?thesis by simp
        next
          case False
          with assms have "\<bar>x\<bar> < 2 powr of_int (- 126)" by simp
          from binade_small[OF this] ge y0 show ?thesis by simp
        qed
      qed
    qed
    hence "ulp32 ?y = ?U" by (simp add: ulp32_def)
    with y have "?y = of_int ?n * ulp32 ?y" by simp
    thus ?thesis by blast
  qed
  then obtain m where m: "?y = of_int m * ulp32 ?y" ..
  have "?y / ulp32 ?y = of_int m" using m ulp32_pos[of ?y]
    by (metis nonzero_mult_div_cancel_right less_irrefl)
  hence "nearest32 ?y = of_int (round_even (of_int m)) * ulp32 ?y"
    by (simp add: nearest32_def[of ?y])
  thus ?thesis using m by (simp add: round_even_int)
qed

text \<open>When the result of \<open>round32\<close> is finite, and when it is not.\<close>

lemma round32_finite:
  assumes "\<bar>x\<bar> \<le> 2 ^ 127"
  shows "round32 x = Finite (nearest32 x)"
proof -
  have "\<bar>nearest32 x\<bar> < 2 ^ 128"
  proof (cases "2 powr of_int (- 126) \<le> \<bar>x\<bar>")
    case True
    from nearest32_rel[OF True] have "\<bar>nearest32 x\<bar> \<le> \<bar>x\<bar> + \<bar>x\<bar> / 2 ^ 24" by linarith
    also have "\<dots> \<le> 2 ^ 127 + 2 ^ 127 / 2 ^ 24" using assms by (intro add_mono divide_right_mono) simp_all
    also have "\<dots> < (2 ^ 128 :: real)" by simp
    finally show ?thesis .
  next
    case False
    hence s: "\<bar>x\<bar> < 2 powr of_int (- 126)" by simp
    from binade_small[OF s] have "ulp32 x = 2 powr of_int (- 149)" by (simp add: ulp32_def)
    with nearest32_error[of x] have "\<bar>nearest32 x\<bar> \<le> \<bar>x\<bar> + 2 powr of_int (- 149) / 2" by linarith
    also have "\<dots> < 2 powr of_int (- 126) + 2 powr of_int (- 149) / 2" using s by simp
    also have "\<dots> < (2 ^ 128 :: real)" by (simp add: powr_neg_numeral)
    finally show ?thesis .
  qed
  thus ?thesis by (auto simp: round32_def Let_def)
qed

lemma round32_nonneg:
  assumes "0 \<le> x"
  shows "round32 x = PlusInf \<or> round32 x = Finite (nearest32 x)"
  using nearest32_nonneg[OF assms] by (auto simp: round32_def Let_def)


lemma round32_0: "round32 0 = Finite 0"
  by (simp add: round32_def nearest32_0)

text \<open>The literal \<^verbatim>\<open>1e-30f\<close>.\<close>

lemma eps32:
  "\<exists>eps. round32 (1 / 10 ^ 30) = Finite eps \<and> nearest32 eps = eps \<and>
         1 / 2 ^ 100 \<le> eps \<and> eps \<le> 1 / 2 ^ 99"
proof -
  let ?x = "1 / 10 ^ 30 :: real"
  have f: "round32 ?x = Finite (nearest32 ?x)" by (rule round32_finite) simp
  have "2 powr of_int (- 126) \<le> \<bar>?x\<bar>" by (simp add: powr_neg_numeral)
  from nearest32_rel[OF this] have "\<bar>nearest32 ?x - ?x\<bar> \<le> ?x / 2 ^ 24" by simp
  hence "?x - ?x / 2 ^ 24 \<le> nearest32 ?x" "nearest32 ?x \<le> ?x + ?x / 2 ^ 24" by linarith+
  moreover have "1 / 2 ^ 100 \<le> ?x - ?x / 2 ^ 24" "?x + ?x / 2 ^ 24 \<le> 1 / 2 ^ 99" by simp_all
  ultimately have "1 / 2 ^ 100 \<le> nearest32 ?x" "nearest32 ?x \<le> 1 / 2 ^ 99" by linarith+
  moreover have "nearest32 (nearest32 ?x) = nearest32 ?x" by (rule nearest32_idem) simp
  ultimately show ?thesis using f by blast
qed
section \<open>Facts about normalize_vector\<close>

lemma p2_126: "(2 powr of_int (- 126) :: real) = 1 / 2 ^ 126"
  using p2_neg[of 126] by simp

lemma round32_Finite:
  assumes "round32 x = Finite y"
  shows "y = nearest32 x \<and> \<bar>y\<bar> < 2 ^ 128"
  using assms by (auto simp: round32_def Let_def split: if_splits)

text \<open>Rounding at most doubles a magnitude (plus one), and in the normal range at most halves
  it.\<close>

lemma nearest32_crude: "\<bar>nearest32 x\<bar> \<le> 2 * \<bar>x\<bar> + 1"
proof (cases "2 powr of_int (- 126) \<le> \<bar>x\<bar>")
  case True
  from nearest32_rel[OF True] have "\<bar>nearest32 x\<bar> \<le> \<bar>x\<bar> + \<bar>x\<bar> / 2 ^ 24" by linarith
  also have "\<dots> \<le> 2 * \<bar>x\<bar> + 1" by simp
  finally show ?thesis .
next
  case False
  hence s: "\<bar>x\<bar> < 2 powr of_int (- 126)" by simp
  from binade_small[OF s] have "ulp32 x = 2 powr of_int (- 149)" by (simp add: ulp32_def)
  with nearest32_error[of x] have "\<bar>nearest32 x\<bar> \<le> \<bar>x\<bar> + 2 powr of_int (- 149) / 2" by linarith
  also have "\<dots> \<le> 2 * \<bar>x\<bar> + 1" by (simp add: powr_neg_numeral)
  finally show ?thesis .
qed

lemma nearest32_half:
  assumes "1 / 2 ^ 126 \<le> x"
  shows "x / 2 \<le> nearest32 x"
proof -
  from above_inverse_power[OF assms] have pos: "0 < x" .
  with assms have "2 powr of_int (- 126) \<le> \<bar>x\<bar>" unfolding p2_126 by simp
  from nearest32_rel[OF this] pos have "x - x / 2 ^ 24 \<le> nearest32 x" by linarith
  moreover have "x / 2 \<le> x - x / 2 ^ 24" using pos by simp
  ultimately show ?thesis by linarith
qed

lemma sum_of_squares_0: "sum_of_squares data 0 = Finite 0"
  by (simp add: sum_of_squares_def)

lemma sum_of_squares_Suc:
  "sum_of_squares data (Suc k)
     = fadd (sum_of_squares data k) (fmul (Finite (data k)) (Finite (data k)))"
  by (simp add: sum_of_squares_def)

lemma fmul_Finite: "fmul (Finite x) (Finite y) = round32 (x * y)"
  by (simp add: fmul_def)

lemma fadd_Finite: "fadd (Finite x) (Finite y) = round32 (x + y)"
  by (simp add: fadd_def)

lemma fadd_PlusInf: "b = PlusInf \<or> is_Finite b \<Longrightarrow> fadd PlusInf b = PlusInf"
  by (auto simp: fadd_def)

lemma fadd_PlusInf_right: "fadd (Finite x) PlusInf = PlusInf"
  by (simp add: fadd_def)

text \<open>The first loop: the sum of squares is an infinity, or a float that no rounded square
  exceeds (sums of non-negative floats are rounded monotonically).\<close>

lemma sum_of_squares_cases:
  "sum_of_squares data n = PlusInf \<or>
   (\<exists>a. sum_of_squares data n = Finite a \<and> 0 \<le> a \<and> a < 2 ^ 128 \<and> nearest32 a = a \<and>
        (\<forall>i < n. nearest32 (data i * data i) \<le> a))"
proof (induction n)
  case 0
  show ?case by (simp add: sum_of_squares_0 nearest32_0)
next
  case (Suc k)
  let ?x = "data k"
  have sq: "0 \<le> ?x * ?x" by simp
  from Suc show ?case
  proof
    assume inf: "sum_of_squares data k = PlusInf"
    from round32_nonneg[OF sq] have "fadd PlusInf (round32 (?x * ?x)) = PlusInf"
      by (intro fadd_PlusInf) auto
    with inf show ?case by (simp add: sum_of_squares_Suc fmul_Finite)
  next
    assume "\<exists>a. sum_of_squares data k = Finite a \<and> 0 \<le> a \<and> a < 2 ^ 128 \<and> nearest32 a = a \<and>
                (\<forall>i < k. nearest32 (data i * data i) \<le> a)"
    then obtain a where a: "sum_of_squares data k = Finite a" "0 \<le> a" "nearest32 a = a"
      and le: "\<forall>i < k. nearest32 (data i * data i) \<le> a" by blast
    let ?p = "nearest32 (?x * ?x)"
    from round32_nonneg[OF sq] show ?case
    proof
      assume "round32 (?x * ?x) = PlusInf"
      with a show ?case by (simp add: sum_of_squares_Suc fmul_Finite fadd_PlusInf_right)
    next
      assume p: "round32 (?x * ?x) = Finite ?p"
      have p0: "0 \<le> ?p" by (rule nearest32_nonneg[OF sq])
      have pp: "nearest32 ?p = ?p" by (rule nearest32_idem[OF sq])
      have s: "sum_of_squares data (Suc k) = round32 (a + ?p)"
        using a p by (simp add: sum_of_squares_Suc fmul_Finite fadd_Finite)
      from a p0 have ap: "0 \<le> a + ?p" by simp
      from round32_nonneg[OF ap] show ?case
      proof
        assume "round32 (a + ?p) = PlusInf"
        with s show ?case by simp
      next
        assume r: "round32 (a + ?p) = Finite (nearest32 (a + ?p))"
        let ?a' = "nearest32 (a + ?p)"
        have "a \<le> ?a'" using nearest32_mono[of a "a + ?p"] a p0 by simp
        moreover have "?p \<le> ?a'" using nearest32_mono[of ?p "a + ?p"] a p0 pp by simp
        moreover have "0 \<le> ?a'" by (rule nearest32_nonneg[OF ap])
        moreover have "nearest32 ?a' = ?a'" by (rule nearest32_idem[OF ap])
        moreover from round32_Finite[OF r] have "?a' < 2 ^ 128" by simp
        moreover have "\<forall>i < Suc k. nearest32 (data i * data i) \<le> ?a'"
        proof (intro allI impI)
          fix i assume "i < Suc k"
          hence "i < k \<or> i = k" by auto
          thus "nearest32 (data i * data i) \<le> ?a'"
          proof
            assume "i < k"
            with le have "nearest32 (data i * data i) \<le> a" by simp
            with \<open>a \<le> ?a'\<close> show ?thesis by simp
          next
            assume "i = k"
            with \<open>?p \<le> ?a'\<close> show ?thesis by simp
          qed
        qed
        ultimately show ?case using s r by simp
      qed
    qed
  qed
qed
text \<open>The factor \<^verbatim>\<open>1.0f / (sqrtf(norm) + 1e-30f)\<close>: it is a finite float, 0 when the sum of
  squares is an infinity.\<close>

lemma scale_factor_overflow:
  assumes "s = PlusInf"
  shows "fdiv (Finite 1) (fadd (fsqrt s) (round32 (1 / 10 ^ 30))) = Finite 0"
proof -
  from eps32 obtain eps where "round32 (1 / 10 ^ 30) = Finite eps" by blast
  thus ?thesis using assms by (simp add: fsqrt_def fadd_def fdiv_def)
qed

lemma scale_factor:
  assumes "0 \<le> a" "a < 2 ^ 128"
  shows "\<exists>g. fdiv (Finite 1) (fadd (fsqrt (Finite a)) (round32 (1 / 10 ^ 30))) = Finite g \<and>
             0 \<le> g \<and> g \<le> 2 ^ 101 + 1 \<and> (1 / 2 ^ 127 \<le> a \<longrightarrow> g \<le> 8 / sqrt a + 1)"
proof -
  from eps32 obtain eps where eps: "round32 (1 / 10 ^ 30) = Finite eps" "nearest32 eps = eps"
    "1 / 2 ^ 100 \<le> eps" "eps \<le> 1 / 2 ^ 99" by blast
  have eps0: "0 < eps" by (rule above_inverse_power[OF eps(3)])
  let ?r = "nearest32 (sqrt a)"
  have sq0: "0 \<le> sqrt a" using assms by simp
  have "sqrt a \<le> 2 ^ 64" using assms by (intro real_le_lsqrt) simp_all
  hence sq: "\<bar>sqrt a\<bar> \<le> 2 ^ 127" using sq0 by simp
  have r: "fsqrt (Finite a) = Finite ?r"
    using assms round32_finite[OF sq] by (simp add: fsqrt_def)
  have r0: "0 \<le> ?r" by (rule nearest32_nonneg[OF sq0])
  have "\<bar>?r\<bar> \<le> 2 * \<bar>sqrt a\<bar> + 1" by (rule nearest32_crude)
  with \<open>sqrt a \<le> 2 ^ 64\<close> sq0 have rup: "?r \<le> 2 ^ 66" by simp
  let ?d = "nearest32 (?r + eps)"
  have "\<bar>?r + eps\<bar> \<le> 2 ^ 127" using r0 rup eps0 eps(4) by simp
  from round32_finite[OF this] have d: "fadd (Finite ?r) (Finite eps) = Finite ?d"
    by (simp add: fadd_Finite)
  have "nearest32 eps \<le> ?d" using r0 eps0 by (intro nearest32_mono) simp_all
  hence dlow: "eps \<le> ?d" by (simp add: eps(2))
  hence d0: "0 < ?d" using eps0 by simp
  let ?g = "nearest32 (1 / ?d)"
  have "1 / ?d \<le> 1 / eps" using dlow eps0 by (simp add: frac_le)
  also have "\<dots> \<le> 2 ^ 100" using eps(3) eps0 by (simp add: field_simps)
  finally have iup: "1 / ?d \<le> 2 ^ 100" .
  have i0: "0 \<le> 1 / ?d" using d0 by simp
  have "\<bar>1 / ?d\<bar> \<le> 2 ^ 127" using iup i0 by simp
  from round32_finite[OF this] d0 have g: "fdiv (Finite 1) (Finite ?d) = Finite ?g"
    by (simp add: fdiv_def)
  have g0: "0 \<le> ?g" by (rule nearest32_nonneg[OF i0])
  have gc: "?g \<le> 2 * (1 / ?d) + 1" using nearest32_crude[of "1 / ?d"] i0 by simp
  hence gup: "?g \<le> 2 ^ 101 + 1" using iup by simp
  have "?g \<le> 8 / sqrt a + 1" if big: "1 / 2 ^ 127 \<le> a"
  proof -
    have "1 / 2 ^ 64 \<le> sqrt a" using big by (intro real_le_rsqrt) (simp add: power_divide)
    moreover have "(0::real) < 1 / 2 ^ 64" "(1 / 2 ^ 126 :: real) \<le> 1 / 2 ^ 64" by simp_all
    ultimately have sa: "1 / 2 ^ 126 \<le> sqrt a" "0 < sqrt a" by linarith+
    from nearest32_half[OF sa(1)] have rl: "sqrt a / 2 \<le> ?r" .
    with \<open>1 / 2 ^ 64 \<le> sqrt a\<close> eps0 have "1 / 2 ^ 126 \<le> ?r + eps" by simp
    from nearest32_half[OF this] rl eps0 have dl: "sqrt a / 4 \<le> ?d" by simp
    have "1 / ?d \<le> 1 / (sqrt a / 4)" using dl sa(2) by (intro frac_le) simp_all
    hence "1 / ?d \<le> 4 / sqrt a" by simp
    with gc show ?thesis by simp
  qed
  with r d g g0 gup eps(1) show ?thesis by auto
qed

text \<open>Every float \<^verbatim>\<open>normalize_vector\<close> writes is finite: a component whose square counts in the
  sum is scaled to a magnitude of at most \<open>16 + 2\<^sup>6\<^sup>5\<close>, and a component whose square underflows
  is smaller than \<open>2\<^sup>-\<^sup>6\<^sup>3\<close> and is scaled by less than \<open>2\<^sup>1\<^sup>0\<^sup>2\<close>.\<close>

lemma normalize32_finite:
  assumes "v \<in> set (normalize32 data d)"
  shows "is_Finite v"
proof -
  let ?n = "nat d"
  let ?c = "fdiv (Finite 1) (fadd (fsqrt (sum_of_squares data ?n)) (round32 (1 / 10 ^ 30)))"
  from assms obtain i where i: "i < ?n" and v: "v = fmul (Finite (data i)) ?c"
    by (auto simp: normalize32_def Let_def)
  let ?x = "data i"
  from sum_of_squares_cases[of data ?n] show ?thesis
  proof
    assume "sum_of_squares data ?n = PlusInf"
    from scale_factor_overflow[OF this] have "?c = Finite 0" .
    thus ?thesis by (simp add: v fmul_Finite round32_0)
  next
    assume "\<exists>a. sum_of_squares data ?n = Finite a \<and> 0 \<le> a \<and> a < 2 ^ 128 \<and> nearest32 a = a \<and>
                (\<forall>i < ?n. nearest32 (data i * data i) \<le> a)"
    then obtain a where a: "sum_of_squares data ?n = Finite a" "0 \<le> a" "a < 2 ^ 128"
      and le: "\<forall>i < ?n. nearest32 (data i * data i) \<le> a" by blast
    from scale_factor[OF a(2,3)] a(1) obtain g where g: "?c = Finite g" "0 \<le> g"
      "g \<le> 2 ^ 101 + 1" "1 / 2 ^ 127 \<le> a \<longrightarrow> g \<le> 8 / sqrt a + 1" by auto
    have "\<bar>?x * g\<bar> \<le> 2 ^ 127"
    proof (cases "1 / 2 ^ 126 \<le> ?x * ?x")
      case True
      from nearest32_half[OF True] le i have h: "?x * ?x / 2 \<le> a" by fastforce
      with True have big: "1 / 2 ^ 127 \<le> a" by simp
      hence apos: "0 < a" by (rule above_inverse_power)
      from h have "?x\<^sup>2 \<le> (2 * sqrt a)\<^sup>2" using a(2) by (simp add: power2_eq_square)
      hence "\<bar>?x\<bar> \<le> \<bar>2 * sqrt a\<bar>" by (simp only: abs_le_square_iff)
      hence xb: "\<bar>?x\<bar> \<le> 2 * sqrt a" using a(2) by simp
      from g(4) big have gb: "g \<le> 8 / sqrt a + 1" by simp
      have "\<bar>?x * g\<bar> = \<bar>?x\<bar> * g" using g(2) by (simp add: abs_mult)
      also have "\<dots> \<le> (2 * sqrt a) * (8 / sqrt a + 1)"
        using xb gb g(2) a(2) by (intro mult_mono) simp_all
      also have "\<dots> = 16 + 2 * sqrt a" using apos by (simp add: field_simps)
      also have "\<dots> \<le> 16 + 2 * 2 ^ 64"
      proof -
        have "sqrt a \<le> 2 ^ 64" using a by (intro real_le_lsqrt) simp_all
        thus ?thesis by simp
      qed
      also have "\<dots> \<le> (2 ^ 127 :: real)" by simp
      finally show ?thesis .
    next
      case False
      hence "?x\<^sup>2 \<le> (1 / 2 ^ 63)\<^sup>2" by (simp add: power2_eq_square)
      hence "\<bar>?x\<bar> \<le> \<bar>1 / 2 ^ 63 :: real\<bar>" by (simp only: abs_le_square_iff)
      hence xb: "\<bar>?x\<bar> \<le> 1 / 2 ^ 63" by simp
      have "\<bar>?x * g\<bar> = \<bar>?x\<bar> * g" using g(2) by (simp add: abs_mult)
      also have "\<dots> \<le> (1 / 2 ^ 63) * (2 ^ 101 + 1)"
        using xb g(2,3) by (intro mult_mono) simp_all
      also have "\<dots> \<le> (2 ^ 127 :: real)" by simp
      finally show ?thesis .
    qed
    from round32_finite[OF this] show ?thesis unfolding v g(1) by (simp add: fmul_Finite)
  qed
qed
text \<open>The divisor \<^verbatim>\<open>sqrtf(norm) + 1e-30f\<close> is never a zero, so the sign of a zero divisor, which
  the model leaves out, is never asked for.\<close>

lemma divisor_not_zero:
  "fadd (fsqrt (sum_of_squares data n)) (round32 (1 / 10 ^ 30)) \<noteq> Finite 0"
proof -
  from eps32 obtain eps where eps: "round32 (1 / 10 ^ 30) = Finite eps" "nearest32 eps = eps"
    "1 / 2 ^ 100 \<le> eps" by blast
  have eps0: "0 < eps" by (rule above_inverse_power[OF eps(3)])
  from sum_of_squares_cases[of data n] show ?thesis
  proof
    assume "sum_of_squares data n = PlusInf"
    thus ?thesis by (simp add: eps(1) fsqrt_def fadd_def)
  next
    assume "\<exists>a. sum_of_squares data n = Finite a \<and> 0 \<le> a \<and> a < 2 ^ 128 \<and> nearest32 a = a \<and>
                (\<forall>i < n. nearest32 (data i * data i) \<le> a)"
    then obtain a where a: "sum_of_squares data n = Finite a" "0 \<le> a" "a < 2 ^ 128" by blast
    let ?r = "nearest32 (sqrt a)"
    have sq0: "0 \<le> sqrt a" using a(2) by simp
    have "sqrt a \<le> 2 ^ 64" using a by (intro real_le_lsqrt) simp_all
    hence "\<bar>sqrt a\<bar> \<le> 2 ^ 127" using sq0 by simp
    from round32_finite[OF this] have r: "fsqrt (Finite a) = Finite ?r"
      using a(2) by (simp add: fsqrt_def)
    have r0: "0 \<le> ?r" by (rule nearest32_nonneg[OF sq0])
    have "nearest32 eps \<le> nearest32 (?r + eps)" using r0 eps0 by (intro nearest32_mono) simp_all
    hence pos: "0 < nearest32 (?r + eps)" using eps0 eps(2) by simp
    show ?thesis
    proof
      assume "fadd (fsqrt (sum_of_squares data n)) (round32 (1 / 10 ^ 30)) = Finite 0"
      hence "round32 (?r + eps) = Finite 0" unfolding a(1) r eps(1) fadd_Finite .
      from round32_Finite[OF this] pos show False by simp
    qed
  qed
qed





































section \<open>The search-time parameter ef\<close>

text \<open>
  Claim C10. A value given to \<^verbatim>\<open>hnswlib_index_set_ef\<close> before the index is initialised is kept
  in \<open>default_ef\<close> (the engine does not exist yet, so \<^verbatim>\<open>hnswlib_index_get_ef\<close> still answers
  0), and \<^verbatim>\<open>hnswlib_index_init\<close> hands it to the new engine. Every successful
  \<^verbatim>\<open>hnswlib_index_init\<close>, a repeated one too, leaves the engine with the stored default, which
  is the value of the latest \<^verbatim>\<open>hnswlib_index_set_ef\<close>. \<^verbatim>\<open>hnswlib_index_get_ef\<close> answers 0
  for a null index and for an index without engine.
\<close>

theorem set_ef_survives_init:
  fixes ix :: "('sp, 'g) HNSWIndex"
  shows "(appr_alg ix = None \<longrightarrow>
            hnswlib_index_set_ef (Some ix) v = Some (ix\<lparr>default_ef := v\<rparr>) \<and>
            hnswlib_index_get_ef (hnswlib_index_set_ef (Some ix) v) = 0 \<and>
            (\<forall>sp alg. space ix = Some sp \<longrightarrow>
                new sp max_elements M ef_construction random_seed allow = Inr alg \<longrightarrow>
                (\<exists>index'. hnswlib_index_init new (hnswlib_index_set_ef (Some ix) v) max_elements M
                              ef_construction random_seed allow = (True, index') \<and>
                           hnswlib_index_get_ef index' = v)))
       \<and> (\<forall>index'. hnswlib_index_init new (Some ix) max_elements M ef_construction random_seed allow
                      = (True, index') \<longrightarrow> hnswlib_index_get_ef index' = default_ef ix)
       \<and> (\<forall>ix'. hnswlib_index_set_ef (Some ix) v = Some ix' \<longrightarrow> default_ef ix' = v)
       \<and> hnswlib_index_get_ef (None :: ('sp, 'g) HNSWIndex option) = 0
       \<and> (appr_alg ix = None \<longrightarrow> hnswlib_index_get_ef (Some ix) = 0)"
  by (auto simp: hnswlib_index_set_ef_def hnswlib_index_get_ef_def hnswlib_index_init_def
           split: option.splits sum.splits)

theorem set_ef_survives_init_witness:
  "appr_alg (fresh_index :: (MetricSpace, unit list) HNSWIndex) = None \<and>
   space (fresh_index :: (MetricSpace, unit list) HNSWIndex) = Some (L2 2) \<and>
   hnswlib_index_get_ef (hnswlib_index_set_ef (Some (fresh_index :: (MetricSpace, unit list) HNSWIndex)) 50) = 0 \<and>
   fst (hnswlib_index_init plain_engine
          (hnswlib_index_set_ef (Some (fresh_index :: (MetricSpace, unit list) HNSWIndex)) 50)
          100 16 200 1 False) = True \<and>
   hnswlib_index_get_ef
     (snd (hnswlib_index_init plain_engine
             (hnswlib_index_set_ef (Some (fresh_index :: (MetricSpace, unit list) HNSWIndex)) 50)
             100 16 200 1 False)) = 50 \<and>
   fst (hnswlib_index_init plain_engine (Some (fresh_index :: (MetricSpace, unit list) HNSWIndex))
          100 16 200 1 False) = True \<and>
   hnswlib_index_get_ef
     (snd (hnswlib_index_init plain_engine (Some (fresh_index :: (MetricSpace, unit list) HNSWIndex))
             100 16 200 1 False)) = 10"
  using set_ef_survives_init [of "fresh_index :: (MetricSpace, unit list) HNSWIndex" 50
          plain_engine 100 16 200 1 False]
  by (simp add: fresh_index_def plain_engine_def hnswlib_index_set_ef_def hnswlib_index_init_def
        hnswlib_index_get_ef_def)


section \<open>Creation with a dimension that is not positive\<close>

text \<open>
  Claim C7. With the constructors of the metric spaces as the specification describes them,
  \<^verbatim>\<open>hnswlib_index_create\<close> returns a null pointer for every dimension \<open>d \<le> 0\<close>, whatever the
  space type: the constructor of \<^verbatim>\<open>HNSWIndex\<close> builds the space first, the exception leaves it,
  and the handler of \<^verbatim>\<open>hnswlib_index_create\<close> returns \<^verbatim>\<open>nullptr\<close>. The wrapper has no check
  of the dimension of its own. The same holds for \<^verbatim>\<open>hnswlib_bf_index_create\<close>.
\<close>

theorem create_fails_without_dimension:
  "d \<le> 0 \<Longrightarrow>
   (hnswlib_index_create Spec_L2Space Spec_InnerProductSpace hw st d
      :: (MetricSpace, 'g) HNSWIndex option) = None \<and>
   (hnswlib_bf_index_create Spec_L2Space Spec_InnerProductSpace hw st d
      :: (MetricSpace, 'b) BFIndex option) = None"
  by (cases st)
     (simp_all add: hnswlib_index_create_def HNSWIndex_new_def hnswlib_bf_index_create_def
        BFIndex_new_def Spec_L2Space_def Spec_InnerProductSpace_def)

theorem create_fails_without_dimension_witness:
  "(0::int) \<le> 0 \<and>
   (hnswlib_index_create Spec_L2Space Spec_InnerProductSpace 8 SpaceTypeCosine 0
      :: (MetricSpace, unit) HNSWIndex option) = None \<and>
   (hnswlib_bf_index_create Spec_L2Space Spec_InnerProductSpace 8 SpaceTypeCosine 0
      :: (MetricSpace, unit) BFIndex option) = None \<and>
   (hnswlib_index_create Spec_L2Space Spec_InnerProductSpace 8 SpaceTypeL2 (- 3)
      :: (MetricSpace, unit) HNSWIndex option) = None \<and>
   (hnswlib_index_create Spec_L2Space Spec_InnerProductSpace 8 SpaceTypeL2 4
      :: (MetricSpace, unit) HNSWIndex option) \<noteq> None"
  using create_fails_without_dimension [of 0 8 SpaceTypeCosine, where ?'g = unit and ?'b = unit]
        create_fails_without_dimension [of "- 3" 8 SpaceTypeL2, where ?'g = unit and ?'b = unit]
  by (simp add: hnswlib_index_create_def HNSWIndex_new_def Spec_L2Space_def)


section \<open>The result blocks of a search\<close>

text \<open>
  Claim C1. Take any call of \<^verbatim>\<open>hnswlib_index_search_knn\<close> that returns \<^verbatim>\<open>true\<close>, under any
  schedule and thread count, on a host with at least one hardware thread and with
  \<open>k \<le> 2\<^sup>3\<^sup>1\<close> (so that \<^verbatim>\<open>k - 1\<close> fits the \<^verbatim>\<open>int\<close> counter of the loop that empties the
  queue). Then for every query \<open>i\<close> of the batch the block \<open>i\<close> of the result buffers holds
  exactly the \<open>k\<close> pairs the engine returned for that query, in non-decreasing order of
  distance; and with the search of the engine as the specification describes it, every label
  in the block is the label of a node that is not tombstoned.
\<close>

theorem search_knn_blocks_sorted_and_live:
  assumes "hnswlib_index_search_knn (Spec_searchKnn reached distance) hw sched (Some ix) query k
             result_labels result_distances query_count num_threads = Some (True, bufs)"
    and "appr_alg ix = Some alg" and "k \<le> 2 ^ 31" and "0 < hw" and "i < query_count"
  shows "length (block bufs i k) = k \<and>
         sorted (map fst (block bufs i k)) \<and>
         (\<forall>p \<in> set (block bufs i k). live alg (snd p)) \<and>
         (\<exists>r. Spec_searchKnn reached distance alg (search_query ix query i) k = Inr r \<and>
              length r = k \<and> mset (block bufs i k) = mset r)"
proof -
  from search_knn_result[OF assms] obtain r where
    r: "Spec_searchKnn reached distance alg (search_query ix query i) k = Inr r" "length r = k"
       "block bufs i k = sort r" by blast
  have "sorted (map fst (block bufs i k))" unfolding r(3) by (rule sorted_fst) simp
  moreover have "\<forall>p \<in> set (block bufs i k). live alg (snd p)"
    unfolding r(3) using Spec_searchKnn_live[OF r(1)] by simp
  moreover have "length (block bufs i k) = k" by (simp add: block_def)
  ultimately show ?thesis using r by auto
qed

theorem search_knn_blocks_sorted_and_live_witness:
  "hnswlib_index_search_knn (Spec_searchKnn reach_all gap) 8 [] (Some populated_index) zeros 2
     zeros zeros 1 1 \<noteq> None \<and>
   fst (the (hnswlib_index_search_knn (Spec_searchKnn reach_all gap) 8 [] (Some populated_index)
               zeros 2 zeros zeros 1 1)) = True \<and>
   appr_alg populated_index = Some three_nodes \<and> (2::nat) \<le> 2 ^ 31 \<and> (0::nat) < 8 \<and> (0::nat) < 1 \<and>
   block (snd (the (hnswlib_index_search_knn (Spec_searchKnn reach_all gap) 8 [] (Some populated_index)
                      zeros 2 zeros zeros 1 1))) 0 2 = [(1, 5), (16, 7)] \<and>
   sorted (map fst (block (snd (the (hnswlib_index_search_knn (Spec_searchKnn reach_all gap) 8 []
                                       (Some populated_index) zeros 2 zeros zeros 1 1))) 0 2)) \<and>
   live three_nodes 5 \<and> live three_nodes 7 \<and> \<not> live three_nodes 6"
proof -
  have q: "search_query populated_index zeros 0 = [0]"
    by (simp add: search_query_def populated_index_def floats_def ptr_add_def zeros_def size_t_of_int_def)
  have r: "Spec_searchKnn reach_all gap three_nodes [0] 2 = Inr [(1, 5), (16, 7)]"
    by (simp add: Spec_searchKnn_def three_nodes_def reach_all_def gap_def)
  have t: "batch_threads 8 1 1 = 1" by (simp add: batch_threads_def size_t_of_int_def)
  have pred: "int_of_size_t (size_t_pred 2) = 1" by (simp add: int_of_size_t_pred)
  have d: "drain 1 0 [(1, 5), (16, 7)] (zeros, zeros)
           = Some (zeros(1 := 7, 0 := 5), zeros(1 := 16, 0 := 1))"
    by (simp add: drain.simps[of 1] drain.simps[of 0] drain.simps[of "- 1"] pq_pop_def max_def)
  have u: "search_knn_fn (Spec_searchKnn reach_all gap) populated_index three_nodes zeros 2 0 0
             (Some (zeros, zeros)) = (None, Some (zeros(1 := 7, 0 := 5), zeros(1 := 16, 0 := 1)))"
    using q r d pred by (simp add: search_knn_fn_def search_query_def populated_index_def)
  have run: "hnswlib_index_search_knn (Spec_searchKnn reach_all gap) 8 [] (Some populated_index) zeros 2
            zeros zeros 1 1 = Some (True, zeros(1 := 7, 0 := 5), zeros(1 := 16, 0 := 1))"
    using u t
    by (simp add: hnswlib_index_search_knn_def ParallelFor_def ParallelFor_loop_unfold
          ParallelFor_loop_end populated_index_def size_t_of_int_def)
  have a: "appr_alg populated_index = Some three_nodes" by (simp add: populated_index_def)
  from search_knn_blocks_sorted_and_live[OF run a, of 0]
  have s: "sorted (map fst (block (zeros(1 := 7, 0 := 5), zeros(1 := 16, 0 := 1)) 0 2))" by simp
  have b: "block (zeros(1 := 7 :: labeltype, 0 := 5), zeros(1 := 16 :: real, 0 := 1)) 0 2
           = [(1, 5), (16, 7)]"
    by (simp add: block_def eval_nat_numeral zeros_def)
  have l: "live three_nodes 5" "live three_nodes 7" "\<not> live three_nodes 6"
    by (simp_all add: live_def three_nodes_def)
  show ?thesis using run a s b l by simp
qed

section \<open>A query that cannot be satisfied fails the whole call\<close>

text \<open>
  Claim C2. If for some query of the batch the engine returns fewer than \<open>k\<close> results, then no
  call of \<^verbatim>\<open>hnswlib_index_search_knn\<close> returns \<^verbatim>\<open>true\<close>, under any schedule and thread count (on
  a host with at least one hardware thread); and the call does return: every schedule long
  enough to let the workers finish yields \<^verbatim>\<open>false\<close>. The lambda throws when the size of the
  queue is not \<open>k\<close>, the executor rethrows, the handler of the wrapper returns \<^verbatim>\<open>false\<close>.
\<close>

theorem search_knn_fails_when_short:
  assumes "appr_alg ix = Some alg" and "0 < hw" and "i < query_count"
    and "searchKnn alg (search_query ix query i) k = Inr r" and "length r < k"
  shows "(\<forall>ok bufs. hnswlib_index_search_knn searchKnn hw sched (Some ix) query k result_labels
                      result_distances query_count num_threads = Some (ok, bufs) \<longrightarrow> \<not> ok) \<and>
         (2 * query_count + hw +
            size_t_of_int (batch_threads (num_threads_default ix) query_count num_threads)
            \<le> length sched \<longrightarrow>
          (\<exists>bufs. hnswlib_index_search_knn searchKnn hw sched (Some ix) query k result_labels
                     result_distances query_count num_threads = Some (False, bufs)))"
proof -
  have ne: "length r \<noteq> k" using assms(5) by simp
  have no: "\<not> ok"
    if "hnswlib_index_search_knn searchKnn hw sched (Some ix) query k result_labels
          result_distances query_count num_threads = Some (ok, bufs)" for ok bufs
    using search_knn_short[OF that assms(1,2,3,4) ne] .
  have "\<exists>bufs. hnswlib_index_search_knn searchKnn hw sched (Some ix) query k result_labels
                     result_distances query_count num_threads = Some (False, bufs)"
    if "2 * query_count + hw +
            size_t_of_int (batch_threads (num_threads_default ix) query_count num_threads)
            \<le> length sched"
  proof -
    from search_knn_returns[OF assms(1) that] obtain ok bufs where
      run: "hnswlib_index_search_knn searchKnn hw sched (Some ix) query k result_labels
              result_distances query_count num_threads = Some (ok, bufs)" by blast
    with no[OF run] show ?thesis by auto
  qed
  with no show ?thesis by blast
qed

theorem search_knn_fails_when_short_witness:
  "appr_alg populated_index = Some three_nodes \<and> (0::nat) < 8 \<and> (0::nat) < 1 \<and>
   Spec_searchKnn reach_all gap three_nodes (search_query populated_index zeros 0) 3
     = Inr [(1, 5), (16, 7)] \<and>
   length [(1 :: real, 5 :: labeltype), (16, 7)] < 3 \<and>
   2 * 1 + 8 + size_t_of_int (batch_threads (num_threads_default populated_index) 1 1)
     \<le> length (replicate 11 (0::nat)) \<and>
   hnswlib_index_search_knn (Spec_searchKnn reach_all gap) 8 (replicate 11 0) (Some populated_index)
     zeros 3 zeros zeros 1 1 = Some (False, zeros, zeros)"
proof -
  have q: "search_query populated_index zeros 0 = [0]"
    by (simp add: search_query_def populated_index_def floats_def ptr_add_def zeros_def size_t_of_int_def)
  have r: "Spec_searchKnn reach_all gap three_nodes [0] 3 = Inr [(1, 5), (16, 7)]"
    by (simp add: Spec_searchKnn_def three_nodes_def reach_all_def gap_def)
  have t: "batch_threads 8 1 1 = 1" by (simp add: batch_threads_def size_t_of_int_def)
  have a: "appr_alg populated_index = Some three_nodes" by (simp add: populated_index_def)
  have n: "num_threads_default populated_index = 8" by (simp add: populated_index_def)
  have u: "search_knn_fn (Spec_searchKnn reach_all gap) populated_index three_nodes zeros 3 0 0
             (Some (zeros, zeros))
           = (Some ''Cannot return results. Probably ef or M is too small'', Some (zeros, zeros))"
    using q r by (simp add: search_knn_fn_def search_query_def populated_index_def)
  have run: "hnswlib_index_search_knn (Spec_searchKnn reach_all gap) 8 (replicate 11 0)
               (Some populated_index) zeros 3 zeros zeros 1 1 = Some (False, zeros, zeros)"
    using u t
    by (simp add: hnswlib_index_search_knn_def ParallelFor_def ParallelFor_loop_unfold
          ParallelFor_loop_end populated_index_def size_t_of_int_def)
  have b: "2 * 1 + 8 + size_t_of_int (batch_threads (num_threads_default populated_index) 1 1)
             \<le> length (replicate 11 (0::nat))"
    using t n by (simp add: size_t_of_int_def)
  from search_knn_fails_when_short[of populated_index three_nodes 8 0 1 "Spec_searchKnn reach_all gap"
         zeros 3 "[(1, 5), (16, 7)]" "replicate 11 0" zeros zeros 1]
  show ?thesis using a q r b run by simp
qed

section \<open>The label counter\<close>

lemma add_items_auto_labels:
  assumes "cur_l ix = c"
  shows "hnswlib_index_add_items addPoint hw sched (Some ix) data rows d None nt rd =
         hnswlib_index_add_items addPoint hw sched (Some ix) data rows d
           (Some (\<lambda>row. c + of_nat row)) nt rd"
proof -
  have fn: "add_items_fn addPoint ix data d None rd =
            add_items_fn addPoint ix data d (Some (\<lambda>row. c + of_nat row)) rd"
    using assms by (intro ext) (simp add: add_items_fn_def)
  have first: "add_first addPoint ix alg data d None rd =
               add_first addPoint ix alg data d (Some (\<lambda>row. c + of_nat row)) rd" for alg
    using assms by (simp add: add_first_def)
  show ?thesis
    unfolding hnswlib_index_add_items_def option.case fn first ..
qed

lemma bf_add_items_loop_cong:
  "(\<And>r alg. bf_add_items_body addPoint ix data d ids r alg = bf_add_items_body addPoint ix data d ids' r alg) \<Longrightarrow>
   bf_add_items_loop addPoint ix data d ids row rows alg =
   bf_add_items_loop addPoint ix data d ids' row rows alg"
proof (induction addPoint ix data d ids row rows alg rule: bf_add_items_loop.induct)
  case (1 addPoint ix data d ids row rows alg)
  show ?case
  proof (cases "row < rows")
    case False
    then show ?thesis
      by (simp add: bf_add_items_loop.simps[of _ _ _ _ ids row] bf_add_items_loop.simps[of _ _ _ _ ids' row])
  next
    case True
    obtain e alg1 where b: "bf_add_items_body addPoint ix data d ids row alg = (e, alg1)"
      by (cases "bf_add_items_body addPoint ix data d ids row alg")
    hence b': "bf_add_items_body addPoint ix data d ids' row alg = (e, alg1)" using "1.prems" by simp
    show ?thesis
    proof (cases e)
      case None
      from "1.IH"[OF True b[symmetric] None "1.prems"] True b b' None show ?thesis
        by (simp add: bf_add_items_loop.simps[of _ _ _ _ ids row] bf_add_items_loop.simps[of _ _ _ _ ids' row])
    next
      case (Some x)
      with True b b' show ?thesis
        by (simp add: bf_add_items_loop.simps[of _ _ _ _ ids row] bf_add_items_loop.simps[of _ _ _ _ ids' row])
    qed
  qed
qed

lemma bf_add_items_auto_labels:
  assumes "bf_cur_l ix = c"
  shows "hnswlib_bf_index_add_items addPoint (Some ix) data rows d None =
         hnswlib_bf_index_add_items addPoint (Some ix) data rows d (Some (\<lambda>row. c + of_nat row))"
proof -
  have eq: "bf_add_items_loop addPoint ix data d None 0 rows alg =
        bf_add_items_loop addPoint ix data d (Some (\<lambda>row. c + of_nat row)) 0 rows alg" for alg
    by (rule bf_add_items_loop_cong) (simp add: bf_add_items_body_def assms)
  show ?thesis
    unfolding hnswlib_bf_index_add_items_def option.case eq ..
qed

text \<open>
  Claim C9. A call of \<^verbatim>\<open>hnswlib_index_add_items\<close> or \<^verbatim>\<open>hnswlib_bf_index_add_items\<close> that returns
  \<^verbatim>\<open>true\<close> for a batch of \<open>rows\<close> rows leaves the counter \<open>cur_l\<close> at its old value plus
  \<open>rows\<close> (in 64-bit arithmetic), whether or not the batch came with labels of its own. A later
  batch without labels therefore behaves as the batch with the explicit labels
  \<open>cur_l + rows + row\<close>: the positions of the earlier batch are skipped.
\<close>

theorem add_items_advances_counter:
  "(hnswlib_index_add_items addPoint hw sched (Some ix) data rows d ids nt rd = Some (True, index') \<longrightarrow>
      (\<exists>ix'. index' = Some ix' \<and> cur_l ix' = cur_l ix + of_nat rows \<and>
         (\<forall>sched2 data2 rows2 d2 nt2 rd2.
            hnswlib_index_add_items addPoint hw sched2 index' data2 rows2 d2 None nt2 rd2 =
            hnswlib_index_add_items addPoint hw sched2 index' data2 rows2 d2
              (Some (\<lambda>row. cur_l ix + of_nat rows + of_nat row)) nt2 rd2))) \<and>
   (hnswlib_bf_index_add_items bf_addPoint (Some bx) data rows d ids = (True, bf_index') \<longrightarrow>
      (\<exists>bx'. bf_index' = Some bx' \<and> bf_cur_l bx' = bf_cur_l bx + of_nat rows \<and>
         (\<forall>data2 rows2 d2.
            hnswlib_bf_index_add_items bf_addPoint bf_index' data2 rows2 d2 None =
            hnswlib_bf_index_add_items bf_addPoint bf_index' data2 rows2 d2
              (Some (\<lambda>row. bf_cur_l bx + of_nat rows + of_nat row)))))"
proof (intro conjI impI)
  assume "hnswlib_index_add_items addPoint hw sched (Some ix) data rows d ids nt rd = Some (True, index')"
  from add_items_success[OF this] obtain ix' where
    ix': "index' = Some ix'" "cur_l ix' = cur_l ix + of_nat rows" by blast
  with add_items_auto_labels[OF ix'(2), of addPoint hw]
  show "\<exists>ix'. index' = Some ix' \<and> cur_l ix' = cur_l ix + of_nat rows \<and>
         (\<forall>sched2 data2 rows2 d2 nt2 rd2.
            hnswlib_index_add_items addPoint hw sched2 index' data2 rows2 d2 None nt2 rd2 =
            hnswlib_index_add_items addPoint hw sched2 index' data2 rows2 d2
              (Some (\<lambda>row. cur_l ix + of_nat rows + of_nat row)) nt2 rd2)"
    by simp
next
  assume "hnswlib_bf_index_add_items bf_addPoint (Some bx) data rows d ids = (True, bf_index')"
  from bf_add_items_success[OF this] obtain bx' where
    bx': "bf_index' = Some bx'" "bf_cur_l bx' = bf_cur_l bx + of_nat rows" by blast
  with bf_add_items_auto_labels[OF bx'(2), of bf_addPoint]
  show "\<exists>bx'. bf_index' = Some bx' \<and> bf_cur_l bx' = bf_cur_l bx + of_nat rows \<and>
         (\<forall>data2 rows2 d2.
            hnswlib_bf_index_add_items bf_addPoint bf_index' data2 rows2 d2 None =
            hnswlib_bf_index_add_items bf_addPoint bf_index' data2 rows2 d2
              (Some (\<lambda>row. bf_cur_l bx + of_nat rows + of_nat row)))"
    by simp
qed

theorem add_items_advances_counter_witness:
  "fst (the (labelled_batch 2 second_first)) \<and>
   cur_l (the (snd (the (labelled_batch 2 second_first)))) = cur_l empty_index + 9 \<and>
   hnswlib_index_add_items (recording accept_all) 8 [] (snd (the (labelled_batch 2 second_first)))
     ramp 2 1 None 1 False =
   hnswlib_index_add_items (recording accept_all) 8 [] (snd (the (labelled_batch 2 second_first)))
     ramp 2 1 (Some (\<lambda>row. 9 + of_nat row)) 1 False \<and>
   fst (hnswlib_bf_index_add_items (bf_recording bf_accept_all) (Some empty_bf_index) ramp 3 1
          (Some (\<lambda>i. 1000 + of_nat i))) \<and>
   bf_cur_l (the (snd (hnswlib_bf_index_add_items (bf_recording bf_accept_all) (Some empty_bf_index)
                         ramp 3 1 (Some (\<lambda>i. 1000 + of_nat i))))) = 3"
proof -
  have bf: "hnswlib_bf_index_add_items (bf_recording bf_accept_all) (Some empty_bf_index) ramp 3 1
              (Some (\<lambda>i. 1000 + of_nat i))
            = (True, Some (empty_bf_index\<lparr>bf_alg := Some ((), [(1000, [0]), (1001, [1]), (1002, [2])]),
                                            bf_cur_l := 3\<rparr>))"
    by (simp add: hnswlib_bf_index_add_items_def empty_bf_index_def size_t_of_int_small
          bf_add_items_loop_unfold bf_add_items_loop_end
          bf_add_items_body_def bf_recording_def bf_accept_all_def floats_def ptr_add_def ramp_def)
  have c: "cur_l empty_index = 0" by (simp add: empty_index_def)
  from add_items_advances_counter[of "recording accept_all" 8 second_first empty_index ramp 9 1
         "Some (\<lambda>i. 1000 + of_nat i)" 2 False "snd (the (labelled_batch 2 second_first))"
         "bf_recording bf_accept_all" empty_bf_index
         "snd (hnswlib_bf_index_add_items (bf_recording bf_accept_all) (Some empty_bf_index) ramp 3 1
                 (Some (\<lambda>i. 1000 + of_nat i)))"]
  have "hnswlib_index_add_items (recording accept_all) 8 [] (snd (the (labelled_batch 2 second_first)))
          ramp 2 1 None 1 False =
        hnswlib_index_add_items (recording accept_all) 8 [] (snd (the (labelled_batch 2 second_first)))
          ramp 2 1 (Some (\<lambda>row. 9 + of_nat row)) 1 False"
    using labelled_batch_parallel[unfolded labelled_batch_def] c
    by (simp add: labelled_batch_parallel)
  thus ?thesis using bf c by (simp add: labelled_batch_parallel)
qed

section \<open>Labels depend on the batch position only\<close>

text \<open>
  Claim C3. Take two calls of \<^verbatim>\<open>hnswlib_index_add_items\<close> on the same index with the same batch,
  with any two thread counts and under any two schedules, both returning \<^verbatim>\<open>true\<close> (on a host
  with at least one hardware thread; the batch is not empty, or the index has its entry point).
  Each call has handed to the engine, for every batch position \<open>row\<close>, exactly one pair made of
  the label \<open>ids[row]\<close>, or \<open>cur_l + row\<close> when no labels are given, with \<open>cur_l\<close> the counter at
  entry, and the vector of that row; so both calls handed over the same pairs. Only the order
  of the calls depends on the schedule.
\<close>

theorem labels_by_batch_position:
  fixes ix :: "('sp, 'g \<times> (labeltype \<times> real list) list) HNSWIndex"
  assumes "0 < hw" and "0 < rows \<or> ep_added ix"
    and "hnswlib_index_add_items (recording addPoint) hw sched1 (Some ix) data rows d ids threads1 rd
           = Some (True, index1)"
    and "hnswlib_index_add_items (recording addPoint) hw sched2 (Some ix) data rows d ids threads2 rd
           = Some (True, index2)"
  shows "mset (history index1) =
           mset (history (Some ix)) + mset (map (handed ix data d ids) [0..<rows]) \<and>
         (\<forall>row. fst (handed ix data d ids row) =
                  (case ids of Some p \<Rightarrow> p row | None \<Rightarrow> cur_l ix + of_nat row)) \<and>
         mset (history index2) = mset (history index1)"
  using add_items_complete[OF assms(3,1,2)] add_items_complete[OF assms(4,1,2)]
  by (simp add: handed_def)

theorem labels_by_batch_position_witness:
  "(0::nat) < 8 \<and> (0::nat) < 9 \<and>
   fst (the (labelled_batch 1 [])) \<and> fst (the (labelled_batch 2 second_first)) \<and>
   history (snd (the (labelled_batch 1 []))) =
     [(1000, [0]), (1001, [1]), (1002, [2]), (1003, [3]), (1004, [4]), (1005, [5]), (1006, [6]),
      (1007, [7]), (1008, [8])] \<and>
   history (snd (the (labelled_batch 2 second_first))) =
     [(1000, [0]), (1002, [2]), (1001, [1]), (1004, [4]), (1003, [3]), (1006, [6]), (1005, [5]),
      (1008, [8]), (1007, [7])] \<and>
   mset (history (snd (the (labelled_batch 2 second_first)))) =
     mset (history (snd (the (labelled_batch 1 []))))"
proof -
  have h: "(0::nat) < 8" "(0::nat) < 9 \<or> ep_added empty_index" by simp_all
  from labels_by_batch_position[OF h labelled_batch_sequential[unfolded labelled_batch_def]
         labelled_batch_parallel[unfolded labelled_batch_def]]
  have "mset (history (snd (the (labelled_batch 2 second_first)))) =
        mset (history (snd (the (labelled_batch 1 []))))"
    by (simp add: labelled_batch_sequential labelled_batch_parallel)
  thus ?thesis
    by (simp add: labelled_batch_sequential labelled_batch_parallel history_def)
qed

section \<open>The first vector of a batch\<close>

text \<open>
  Claim C4. On an index whose entry point has not been added, every completed call of
  \<^verbatim>\<open>hnswlib_index_add_items\<close>, under any schedule and thread count, hands the pair of row 0 to
  the engine first, from the block that precedes \<^verbatim>\<open>ParallelFor\<close>, and sets \<^verbatim>\<open>start\<close> to 1: all
  the pairs that follow in the history belong to rows from 1 on. A call that hands nothing to
  the engine returns \<^verbatim>\<open>false\<close>, and a call that returns \<^verbatim>\<open>true\<close> leaves \<^verbatim>\<open>ep_added\<close> set.
\<close>

theorem first_vector_before_fan_out:
  fixes ix :: "('sp, 'g \<times> (labeltype \<times> real list) list) HNSWIndex"
  assumes "\<not> ep_added ix"
    and "hnswlib_index_add_items (recording addPoint) hw sched (Some ix) data rows d ids nt rd
           = Some (ok, index')"
  shows "(\<exists>rs. history index' = history (Some ix) @ map (handed ix data d ids) rs \<and>
              ((rs = [] \<and> \<not> ok) \<or> (rs \<noteq> [] \<and> hd rs = 0 \<and> set (tl rs) \<subseteq> {1..<rows}))) \<and>
         (\<forall>alg start ep alg'.
            add_first (recording addPoint) ix alg data d ids rd = Inr (start, ep, alg') \<longrightarrow>
            start = 1 \<and> ep \<and> snd (rep alg') = snd (rep alg) @ [handed ix data d ids 0]) \<and>
         (ok \<longrightarrow> (\<exists>ix'. index' = Some ix' \<and> ep_added ix'))"
proof (intro conjI allI impI)
  from add_items_shape[OF assms(2)] assms(1)
  show "\<exists>rs. history index' = history (Some ix) @ map (handed ix data d ids) rs \<and>
              ((rs = [] \<and> \<not> ok) \<or> (rs \<noteq> [] \<and> hd rs = 0 \<and> set (tl rs) \<subseteq> {1..<rows}))"
    by auto
next
  fix alg start ep alg'
  assume "add_first (recording addPoint) ix alg data d ids rd = Inr (start, ep, alg')"
  from add_first_recording_Inr[OF this] assms(1)
  show "start = 1" "ep" "snd (rep alg') = snd (rep alg) @ [handed ix data d ids 0]" by auto
next
  assume ok
  with assms(2) add_items_success[of "recording addPoint" hw sched ix data rows d ids nt rd index']
  show "\<exists>ix'. index' = Some ix' \<and> ep_added ix'" by auto
qed

theorem first_vector_before_fan_out_witness:
  "\<not> ep_added empty_index \<and>
   fst (the (labelled_batch 2 second_first)) \<and>
   history (snd (the (labelled_batch 2 second_first))) =
     history (Some empty_index) @
     map (handed empty_index ramp 1 (Some (\<lambda>i. 1000 + of_nat i))) [0, 2, 1, 4, 3, 6, 5, 8, 7] \<and>
   hd [0 :: nat, 2, 1, 4, 3, 6, 5, 8, 7] = 0 \<and>
   add_first (recording accept_all) empty_index \<lparr>ef_member = 10, rep = ((), [])\<rparr> ramp 1
     (Some (\<lambda>i. 1000 + of_nat i)) False
     = Inr (1, True, \<lparr>ef_member = 10, rep = ((), [(1000, [0])])\<rparr>) \<and>
   ep_added (the (snd (the (labelled_batch 2 second_first))))"
proof -
  have e: "\<not> ep_added empty_index" by (simp add: empty_index_def)
  have a: "appr_alg empty_index = Some \<lparr>ef_member = 10, rep = ((), [])\<rparr>"
    by (simp add: empty_index_def)
  from first_vector_before_fan_out[OF e labelled_batch_parallel[unfolded labelled_batch_def]]
  have "ep_added (the (snd (the (labelled_batch 2 second_first))))"
    by (simp add: labelled_batch_parallel)
  thus ?thesis
    using e
    by (simp add: labelled_batch_parallel a handed_labelled add_first_labelled
          history_def del: One_nat_def)
qed

section \<open>Small batches and the thread count\<close>

text \<open>
  Claim C5, evaluated where the code departs from it. A batch of one query with eight threads
  requested is at most four times the thread count. \<^verbatim>\<open>hnswlib_index_search_knn\<close> lowers the
  thread count to 1 and runs the loop on the calling thread: it returns under the empty
  schedule. \<^verbatim>\<open>hnswlib_bf_index_search_knn\<close> has no such test: it passes 8 to \<^verbatim>\<open>ParallelFor\<close>,
  which starts eight workers, so that nothing is returned before the workers have been
  scheduled (ten steps here: one worker runs the query, all eight find the range exhausted).
\<close>

theorem bf_search_small_batch_uses_threads:
  "bf_search_threads (bf_num_threads_default populated_bf) 8 = 8 \<and>
   batch_threads (num_threads_default populated_index) 1 8 = 1 \<and>
   hnswlib_index_search_knn (Spec_searchKnn reach_all gap) 8 [] (Some populated_index) zeros 1
     zeros zeros 1 8 = Some (True, zeros(0 := 5), zeros(0 := 1)) \<and>
   hnswlib_bf_index_search_knn scan 8 [] (Some populated_bf) zeros 1 zeros zeros 1 8 = None \<and>
   hnswlib_bf_index_search_knn scan 8 [0, 0, 0, 0, 0, 0, 0, 0, 0, 0] (Some populated_bf) zeros 1
     zeros zeros 1 8 = Some (True, zeros(0 := 5), zeros(0 := 1))"
proof -
  have t1: "bf_search_threads (bf_num_threads_default populated_bf) 8 = 8"
    by (simp add: bf_search_threads_def populated_bf_def)
  have t2: "batch_threads (num_threads_default populated_index) 1 8 = 1"
    by (simp add: batch_threads_def populated_index_def size_t_of_int_def)
  have pred: "int_of_size_t (size_t_pred 1) = 0" using int_of_size_t_pred[of 1] by simp
  have d: "drain 0 0 [(1, 5)] (zeros, zeros) = Some (zeros(0 := 5), zeros(0 := 1))"
    by (simp add: drain.simps[of 0] drain.simps[of "- 1"] pq_pop_def)
  have u: "search_knn_fn (Spec_searchKnn reach_all gap) populated_index three_nodes zeros 1 0 0
             (Some (zeros, zeros)) = (None, Some (zeros(0 := 5), zeros(0 := 1)))"
    using d pred
    by (simp add: search_knn_fn_def populated_index_def floats_def ptr_add_def zeros_def
          size_t_of_int_def Spec_searchKnn_def three_nodes_def reach_all_def gap_def)
  have ub: "bf_search_knn_fn scan populated_bf (rep three_nodes) zeros 1 0 t
             (Some (zeros, zeros)) = (None, Some (zeros(0 := 5), zeros(0 := 1)))" for t
    using d pred
    by (simp add: bf_search_knn_fn_def populated_bf_def floats_def ptr_add_def zeros_def
          size_t_of_int_def scan_def three_nodes_def gap_def)
  have a: "appr_alg populated_index = Some three_nodes" "\<not> normalize_flag populated_index"
    by (simp_all add: populated_index_def)
  have b: "bf_alg populated_bf = Some (rep three_nodes)"
    by (simp add: populated_bf_def)
  have r1: "hnswlib_index_search_knn (Spec_searchKnn reach_all gap) 8 [] (Some populated_index) zeros 1
             zeros zeros 1 8 = Some (True, zeros(0 := 5), zeros(0 := 1))"
    unfolding hnswlib_index_search_knn_def
    by (simp add: a t2 u ParallelFor_def ParallelFor_loop_unfold ParallelFor_loop_end
          size_t_of_int_small del: One_nat_def)
  have r2: "hnswlib_bf_index_search_knn scan 8 [] (Some populated_bf) zeros 1 zeros zeros 1 8 = None"
    unfolding hnswlib_bf_index_search_knn_def
    by (simp add: b t1 ParallelFor_def spawn_def joined_def enabled_def size_t_of_int_small
          upt_rec_numeral replicate_8 del: One_nat_def)
  have r3: "hnswlib_bf_index_search_knn scan 8 [0, 0, 0, 0, 0, 0, 0, 0, 0, 0] (Some populated_bf) zeros 1
              zeros zeros 1 8 = Some (True, zeros(0 := 5), zeros(0 := 1))"
    unfolding hnswlib_bf_index_search_knn_def
    by (simp add: b t1 ub ParallelFor_def spawn_def joined_def enabled_def pick_def worker_step_def
          size_t_of_int_small upt_rec_numeral replicate_8 del: One_nat_def)
  show ?thesis unfolding t1 t2 r1 r2 r3 by simp
qed

section \<open>Normalisation in cosine mode\<close>










section \<open>Failures in a parallel run\<close>

lemma run_exec:
  "run fn endv sched st = Some st' \<Longrightarrow> st' = exec fn endv sched st \<and> joined st'"
  by (induction sched arbitrary: st) (auto split: if_splits)

lemma worker_step_lastException:
  "lastException (worker_step fn endv t st) =
     (if thrown_by_step fn t st = [] then lastException st else Some (last (thrown_by_step fn t st)))"
  by (auto simp: worker_step_def thrown_by_step_def Let_def split: wstate.splits prod.splits option.splits)

lemma exec_lastException:
  "lastException (exec fn endv sched st) =
     (if thrown fn endv sched st = [] then lastException st
      else Some (last (thrown fn endv sched st)))"
proof (induction sched arbitrary: st)
  case Nil
  then show ?case by simp
next
  case (Cons c cs)
  show ?case
  proof (cases "joined st")
    case True
    then show ?thesis by simp
  next
    case False
    let ?st = "worker_step fn endv (pick c st) st"
    from False have "lastException (exec fn endv (c # cs) st) = lastException (exec fn endv cs ?st)"
      by simp
    also have "\<dots> = (if thrown fn endv cs ?st = [] then lastException ?st
                      else Some (last (thrown fn endv cs ?st)))" by (rule Cons.IH)
    finally show ?thesis using False by (simp add: worker_step_lastException)
  qed
qed

lemma stopped_step:
  assumes "lastException st \<noteq> None" "endv \<le> current st"
  shows "lastException (worker_step fn endv t st) \<noteq> None \<and> endv \<le> current (worker_step fn endv t st) \<and>
         dispatched_by_step endv t st = []"
  using assms
  by (auto simp: worker_step_def dispatched_by_step_def Let_def
           split: wstate.splits prod.splits option.splits)

lemma stopped_dispatches_nothing:
  "lastException st \<noteq> None \<Longrightarrow> endv \<le> current st \<Longrightarrow> dispatched fn endv sched st = []"
proof (induction sched arbitrary: st)
  case Nil
  then show ?case by simp
next
  case (Cons c cs)
  from stopped_step[OF Cons.prems, of fn "pick c st"] Cons.IH[of "worker_step fn endv (pick c st) st"]
  show ?case by simp
qed

lemma cursor_after_failure_step:
  "(lastException st \<noteq> None \<longrightarrow> endv \<le> current st) \<Longrightarrow>
   lastException (worker_step fn endv t st) \<noteq> None \<longrightarrow> endv \<le> current (worker_step fn endv t st)"
  by (auto simp: worker_step_def Let_def split: wstate.splits prod.splits option.splits)

lemma cursor_after_failure:
  "(lastException st \<noteq> None \<longrightarrow> endv \<le> current st) \<Longrightarrow>
   lastException (exec fn endv sched st) \<noteq> None \<longrightarrow> endv \<le> current (exec fn endv sched st)"
proof (induction sched arbitrary: st)
  case Nil
  then show ?case by simp
next
  case (Cons c cs)
  from cursor_after_failure_step[OF Cons.prems, of fn "pick c st"]
       Cons.IH[of "worker_step fn endv (pick c st) st"] Cons.prems
  show ?case by simp
qed

lemma exec_joined: "joined st \<Longrightarrow> exec fn endv sched st = st"
  by (cases sched) simp_all

lemma exec_append: "exec fn endv (pre @ post) st = exec fn endv post (exec fn endv pre st)"
  by (induction pre arbitrary: st) (simp_all add: exec_joined)

lemma unit_of_update:
  "t < length ws \<Longrightarrow>
   mset (concat (map unit_of (ws[t := w]))) + mset (unit_of (ws ! t))
     = mset (concat (map unit_of ws)) + mset (unit_of w)"
  by (induction ws arbitrary: t) (auto split: nat.splits)

lemma in_flight_joined: "joined st \<Longrightarrow> in_flight st = []"
proof -
  assume "joined st"
  hence "\<forall>w \<in> set (workers st). unit_of w = []" by (auto simp: joined_iff in_set_conv_nth)
  thus ?thesis by (simp add: in_flight_def)
qed

text \<open>One step keeps the books: what is in flight afterwards and what the step has run is what
  was in flight before and what the step has handed out.\<close>

lemma step_balance:
  assumes "t < length (workers st)"
  shows "mset (in_flight (worker_step fn endv t st)) + mset (executed_by_step t st)
           = mset (in_flight st) + mset (dispatched_by_step endv t st)"
proof (cases "workers st ! t")
  case Fetching
  from unit_of_update[OF assms, of "if endv \<le> current st then Exited else Running (current st)"]
  show ?thesis using Fetching
    by (auto simp: worker_step_def in_flight_def executed_by_step_def dispatched_by_step_def Let_def)
next
  case (Running i)
  from unit_of_update[OF assms, of Fetching] unit_of_update[OF assms, of Exited]
  show ?thesis using Running
    by (auto simp: worker_step_def in_flight_def executed_by_step_def dispatched_by_step_def
             split: prod.splits option.splits)
next
  case Exited
  thus ?thesis
    by (simp add: worker_step_def executed_by_step_def dispatched_by_step_def)
qed

lemma executed_balance:
  "joined (exec fn endv sched st) \<Longrightarrow>
   mset (executed fn endv sched st) = mset (in_flight st) + mset (dispatched fn endv sched st)"
proof (induction sched arbitrary: st)
  case Nil
  thus ?case by (simp add: in_flight_joined)
next
  case (Cons c cs)
  show ?case
  proof (cases "joined st")
    case True
    thus ?thesis by (simp add: in_flight_joined)
  next
    case False
    let ?t = "pick c st"
    let ?st = "worker_step fn endv ?t st"
    from False Cons.prems have "joined (exec fn endv cs ?st)" by simp
    from Cons.IH[OF this]
    have "mset (executed fn endv cs ?st) = mset (in_flight ?st) + mset (dispatched fn endv cs ?st)" .
    moreover from pick_valid[OF False] have "?t < length (workers st)" by simp
    from step_balance[OF this, of fn endv]
    have "mset (in_flight ?st) + mset (executed_by_step ?t st)
            = mset (in_flight st) + mset (dispatched_by_step endv ?t st)" .
    ultimately show ?thesis using False by (simp add: ac_simps)
  qed
qed

text \<open>
  Claim C8, as the code has it. In a run of \<^verbatim>\<open>ParallelFor\<close> on more than one thread (the count
  \<open>n\<close> that \<^verbatim>\<open>ParallelFor\<close> works with: \<^verbatim>\<open>numThreads\<close>, or the number of hardware threads when
  \<^verbatim>\<open>numThreads\<close> is 0), under any schedule: when the call returns, every worker has left its
  loop (all threads are joined); the exception that leaves \<^verbatim>\<open>ParallelFor\<close> is the one recorded
  last in \<^verbatim>\<open>lastException\<close>, if any unit threw, and none otherwise; from the moment an
  exception is recorded no further unit is handed out, and the units run from then on are
  exactly the units in flight at that moment, each once; and over the whole run every unit
  handed out has been run to its end, once. The exception recorded first is overwritten when a
  unit that was in flight throws later.
\<close>

theorem parallel_failure_propagates_last:
  assumes "n = (if numThreads \<le> 0 then hw else numThreads)" and "1 < n"
    and "ParallelFor hw sched start endv numThreads fn s = Some (e, s')"
  shows "joined (exec fn endv sched (spawn n start s)) \<and>
         e = (if thrown fn endv sched (spawn n start s) = [] then None
              else Some (last (thrown fn endv sched (spawn n start s)))) \<and>
         (\<forall>pre post. sched = pre @ post \<longrightarrow>
            lastException (exec fn endv pre (spawn n start s)) \<noteq> None \<longrightarrow>
            dispatched fn endv post (exec fn endv pre (spawn n start s)) = [] \<and>
            mset (executed fn endv post (exec fn endv pre (spawn n start s)))
              = mset (in_flight (exec fn endv pre (spawn n start s)))) \<and>
         mset (executed fn endv sched (spawn n start s))
           = mset (dispatched fn endv sched (spawn n start s))"
proof -
  let ?st0 = "spawn n start s"
  from assms obtain st where st: "run fn endv sched ?st0 = Some st" and e: "e = lastException st"
    by (auto simp: ParallelFor_def Let_def split: if_splits)
  from run_exec[OF st] have x: "st = exec fn endv sched ?st0" and j: "joined st" by auto
  have l0: "lastException ?st0 = None" by (simp add: spawn_def)
  have "e = (if thrown fn endv sched ?st0 = [] then None else Some (last (thrown fn endv sched ?st0)))"
    unfolding e x exec_lastException l0 ..
  moreover have "dispatched fn endv post (exec fn endv pre ?st0) = [] \<and>
                 mset (executed fn endv post (exec fn endv pre ?st0))
                   = mset (in_flight (exec fn endv pre ?st0))"
    if "sched = pre @ post" "lastException (exec fn endv pre ?st0) \<noteq> None" for pre post
  proof -
    have "lastException ?st0 \<noteq> None \<longrightarrow> endv \<le> current ?st0" by (simp add: l0)
    from cursor_after_failure[OF this, of fn pre] that(2)
    have "endv \<le> current (exec fn endv pre ?st0)" by simp
    from stopped_dispatches_nothing[OF that(2) this]
    have d: "dispatched fn endv post (exec fn endv pre ?st0) = []" .
    from j x that(1) have "joined (exec fn endv post (exec fn endv pre ?st0))"
      by (simp add: exec_append)
    from executed_balance[OF this] d show ?thesis by simp
  qed
  moreover have "mset (executed fn endv sched ?st0) = mset (dispatched fn endv sched ?st0)"
  proof -
    have "in_flight ?st0 = []" by (simp add: in_flight_def spawn_def)
    with executed_balance[of fn endv sched ?st0] j x show ?thesis by simp
  qed
  ultimately show ?thesis using j x by blast
qed

theorem parallel_failure_propagates_last_witness:
  "(2::nat) = (if (0::nat) \<le> 0 then 2 else 0) \<and> (1::nat) < 2 \<and>
   ParallelFor 2 [0, 1, 0, 0] 0 2 0 fail_both () = Some (Some ''unit 1'', ()) \<and>
   joined (exec fail_both 2 [0, 1, 0, 0] (spawn 2 0 ())) \<and>
   thrown fail_both 2 [0, 1, 0, 0] (spawn 2 0 ()) = [''unit 0'', ''unit 1''] \<and>
   [0, 1, 0, 0] = [0, 1, 0] @ [0 :: nat] \<and>
   lastException (exec fail_both 2 [0, 1, 0] (spawn 2 0 ())) = Some ''unit 0'' \<and>
   in_flight (exec fail_both 2 [0, 1, 0] (spawn 2 0 ())) = [1] \<and>
   dispatched fail_both 2 [0] (exec fail_both 2 [0, 1, 0] (spawn 2 0 ())) = [] \<and>
   mset (executed fail_both 2 [0] (exec fail_both 2 [0, 1, 0] (spawn 2 0 ()))) = {#1#} \<and>
   dispatched fail_both 2 [0, 1, 0, 0] (spawn 2 0 ()) = [0, 1] \<and>
   mset (executed fail_both 2 [0, 1, 0, 0] (spawn 2 0 ())) = {#0, 1#}"
proof -
  have r: "ParallelFor 2 [0, 1, 0, 0] 0 2 0 fail_both () = Some (Some ''unit 1'', ())"
    by (simp add: ParallelFor_def spawn_def joined_def enabled_def pick_def worker_step_def
          fail_both_def upt_rec_numeral numeral_2_eq_2)
  have t: "thrown fail_both 2 [0, 1, 0, 0] (spawn 2 0 ()) = [''unit 0'', ''unit 1'']"
    by (simp add: spawn_def joined_def enabled_def pick_def worker_step_def thrown_by_step_def
          fail_both_def upt_rec_numeral numeral_2_eq_2)
  have l: "lastException (exec fail_both 2 [0, 1, 0] (spawn 2 0 ())) = Some ''unit 0''"
    by (simp add: spawn_def joined_def enabled_def pick_def worker_step_def
          fail_both_def upt_rec_numeral numeral_2_eq_2)
  have f: "in_flight (exec fail_both 2 [0, 1, 0] (spawn 2 0 ())) = [1]"
    by (simp add: spawn_def joined_def enabled_def pick_def worker_step_def in_flight_def
          fail_both_def upt_rec_numeral numeral_2_eq_2)
  have d: "dispatched fail_both 2 [0, 1, 0, 0] (spawn 2 0 ()) = [0, 1]"
    by (simp add: spawn_def joined_def enabled_def pick_def worker_step_def dispatched_by_step_def
          fail_both_def upt_rec_numeral numeral_2_eq_2)
  have n: "(2::nat) = (if (0::nat) \<le> 0 then 2 else 0)" "(1::nat) < 2" by simp_all
  have a: "[0, 1, 0, 0] = [0, 1, 0] @ [0 :: nat]" by simp
  have ne: "lastException (exec fail_both 2 [0, 1, 0] (spawn 2 0 ())) \<noteq> None"
    unfolding l by simp
  from parallel_failure_propagates_last[OF n r]
  have j: "joined (exec fail_both 2 [0, 1, 0, 0] (spawn 2 0 ()))"
    and p: "\<forall>pre post. [0, 1, 0, 0] = pre @ post \<longrightarrow>
            lastException (exec fail_both 2 pre (spawn 2 0 ())) \<noteq> None \<longrightarrow>
            dispatched fail_both 2 post (exec fail_both 2 pre (spawn 2 0 ())) = [] \<and>
            mset (executed fail_both 2 post (exec fail_both 2 pre (spawn 2 0 ())))
              = mset (in_flight (exec fail_both 2 pre (spawn 2 0 ())))"
    and w: "mset (executed fail_both 2 [0, 1, 0, 0] (spawn 2 0 ()))
              = mset (dispatched fail_both 2 [0, 1, 0, 0] (spawn 2 0 ()))"
    by blast+
  from p a ne have s: "dispatched fail_both 2 [0] (exec fail_both 2 [0, 1, 0] (spawn 2 0 ())) = []"
    and x: "mset (executed fail_both 2 [0] (exec fail_both 2 [0, 1, 0] (spawn 2 0 ())))
              = mset (in_flight (exec fail_both 2 [0, 1, 0] (spawn 2 0 ())))"
    by blast+
  show ?thesis unfolding r t l d s x f w[unfolded d] using n j a by simp
qed

text \<open>The claim as the specification states it, with the first observed failure as the result,
  fails on two workers whose units both throw: the second exception replaces the first.\<close>

theorem first_failure_is_overwritten:
  "thrown fail_both 2 [0, 1, 0, 0] (spawn 2 0 ()) = [''unit 0'', ''unit 1''] \<and>
   ParallelFor 8 [0, 1, 0, 0] 0 2 2 fail_both () = Some (Some ''unit 1'', ()) \<and>
   fst (the (ParallelFor 8 [0, 1, 0, 0] 0 2 2 fail_both ()))
     \<noteq> Some (hd (thrown fail_both 2 [0, 1, 0, 0] (spawn 2 0 ())))"
proof -
  have r: "ParallelFor 8 [0, 1, 0, 0] 0 2 2 fail_both () = Some (Some ''unit 1'', ())"
    by (simp add: ParallelFor_def spawn_def joined_def enabled_def pick_def worker_step_def
          fail_both_def upt_rec_numeral numeral_2_eq_2)
  have t: "thrown fail_both 2 [0, 1, 0, 0] (spawn 2 0 ()) = [''unit 0'', ''unit 1'']"
    by (simp add: spawn_def joined_def enabled_def pick_def worker_step_def thrown_by_step_def
          fail_both_def upt_rec_numeral numeral_2_eq_2)
  show ?thesis unfolding r t by simp
qed

end
